theory Spec2Isabelle
  imports Main
begin

section \<open>Strings\<close>

text \<open>
  A JavaScript string is a sequence of UTF-16 code units. It is modelled as a list of
  the code units' values, so that every string the editor can hold is covered, also one
  with characters outside Latin-1. \<open>js\<close> turns a literal into such a list.
\<close>

type_synonym jstring = "nat list"

definition js :: "string \<Rightarrow> jstring" where
  "js s = map of_char s"

text \<open>
  The class \<open>\s\<close> of a regular expression, which is also what \<open>String.prototype.trim\<close>
  strips: the white space code points and the line terminators.
\<close>

definition is_space :: "nat \<Rightarrow> bool" where
  "is_space c = (c \<in> {9, 10, 11, 12, 13, 32, 160, 5760, 8232, 8233, 8239, 8287, 12288, 65279}
     \<or> (8192 \<le> c \<and> c \<le> 8202))"

text \<open>The code units that \<open>.\<close> does not match: the line terminators.\<close>

definition is_line_end :: "nat \<Rightarrow> bool" where
  "is_line_end c = (c \<in> {10, 13, 8232, 8233})"

text \<open>The class \<open>\d\<close>.\<close>

definition is_digit :: "nat \<Rightarrow> bool" where
  "is_digit c = (48 \<le> c \<and> c \<le> 57)"

definition js_trim :: "jstring \<Rightarrow> jstring" where
  "js_trim s = rev (dropWhile is_space (rev (dropWhile is_space s)))"

definition starts_with :: "jstring \<Rightarrow> jstring \<Rightarrow> bool" where
  "starts_with p s = (take (length p) s = p)"

text \<open>\<open>s.split('\n')\<close>: the pieces between line feeds, at least one piece.\<close>

fun split_lines :: "jstring \<Rightarrow> jstring list" where
  "split_lines [] = [[]]"
| "split_lines (c # cs) =
     (if c = 10 then [] # split_lines cs
      else (c # hd (split_lines cs)) # tl (split_lines cs))"

text \<open>\<open>parts.join('\n')\<close>.\<close>

fun join_lines :: "jstring list \<Rightarrow> jstring" where
  "join_lines [] = []"
| "join_lines [x] = x"
| "join_lines (x # y # ys) = x @ 10 # join_lines (y # ys)"

section \<open>The classifier (line-renderer.js, lineType)\<close>

datatype line_kind = H1 | H2 | H3 | H4 | H5 | H6 | Hr | Bq | Ul | Ol | Empty | P

text \<open>The string that \<open>lineType\<close> returns for a kind; it is also the line's CSS class.\<close>

fun kind_name :: "line_kind \<Rightarrow> string" where
  "kind_name H1 = ''h1''"
| "kind_name H2 = ''h2''"
| "kind_name H3 = ''h3''"
| "kind_name H4 = ''h4''"
| "kind_name H5 = ''h5''"
| "kind_name H6 = ''h6''"
| "kind_name Hr = ''hr''"
| "kind_name Bq = ''bq''"
| "kind_name Ul = ''ul''"
| "kind_name Ol = ''ol''"
| "kind_name Empty = ''empty''"
| "kind_name P = ''p''"

text \<open>
  A pattern \<open>^c{3,}\s*$\<close>: the line is a run of three or more \<open>c\<close> and then white space
  only. The greedy run takes every leading \<open>c\<close>; giving one back cannot help, since the
  next character would again be \<open>c\<close>.
\<close>

definition bare_run :: "nat \<Rightarrow> jstring \<Rightarrow> bool" where
  "bare_run c s = (3 \<le> length (takeWhile (\<lambda>x. x = c) s)
     \<and> list_all is_space (dropWhile (\<lambda>x. x = c) s))"

text \<open>\<open>/^#{n} /\<close>\<close>

definition re_heading :: "nat \<Rightarrow> jstring \<Rightarrow> bool" where
  "re_heading n s = starts_with (replicate n 35 @ [32]) s"

text \<open>\<open>/^(---+|\*\*\*+)\s*$/\<close>\<close>

definition re_rule :: "jstring \<Rightarrow> bool" where
  "re_rule s = (bare_run 45 s \<or> bare_run 42 s)"

text \<open>\<open>/^> ?/\<close>\<close>

definition re_quote :: "jstring \<Rightarrow> bool" where
  "re_quote s = starts_with [62] s"

text \<open>\<open>/^[-*+] /\<close>\<close>

fun re_bullet :: "jstring \<Rightarrow> bool" where
  "re_bullet (c # d # s) = ((c = 45 \<or> c = 42 \<or> c = 43) \<and> d = 32)"
| "re_bullet s = False"

text \<open>\<open>/^\d+\. /\<close>\<close>

definition re_numbered :: "jstring \<Rightarrow> bool" where
  "re_numbered s = (takeWhile is_digit s \<noteq> [] \<and> starts_with [46, 32] (dropWhile is_digit s))"

definition lineType :: "jstring \<Rightarrow> line_kind" where
  "lineType text =
    (if re_heading 6 text then H6
     else if re_heading 5 text then H5
     else if re_heading 4 text then H4
     else if re_heading 3 text then H3
     else if re_heading 2 text then H2
     else if re_heading 1 text then H1
     else if re_rule text then Hr
     else if re_quote text then Bq
     else if re_bullet text then Ul
     else if re_numbered text then Ol
     else if js_trim text = [] then Empty
     else P)"

section \<open>The live area\<close>

text \<open>
  What an element of the live area shows. \<open>renderLine\<close> sets \<open>innerHTML\<close> to markup
  computed from the line's text alone, so \<open>Rendered t\<close> stands for that markup;
  \<open>editLine\<close> and \<open>_setText\<close> set \<open>textContent\<close>, which is \<open>Raw t\<close>; \<open>CodeUi\<close> is the
  header and the textarea that \<open>makeCodeBlock\<close> builds.
\<close>

datatype content = Raw jstring | Rendered jstring | CodeUi jstring jstring

text \<open>
  A child element of the live area: its class names, its \<open>dataset\<close> entries and what it
  shows. Every read of \<open>dataset.md\<close>, \<open>dataset.lang\<close> and \<open>dataset.code\<close> in the
  source is followed by \<open>|| ''\<close>, so an entry that was never set is the empty string;
  \<open>dataset.cb\<close> is only tested for truth.
\<close>

record node =
  classes :: "string list"
  ds_cb :: bool
  ds_lang :: jstring
  ds_code :: jstring
  ds_md :: jstring
  shown :: content

text \<open>\<open>renderLine(el, text)\<close> and \<open>editLine(el, text)\<close> of line-renderer.js.\<close>

definition renderLine :: "node \<Rightarrow> jstring \<Rightarrow> node" where
  "renderLine el text = el\<lparr>classes := [''ln'', kind_name (lineType text)], shown := Rendered text\<rparr>"

definition editLine :: "node \<Rightarrow> jstring \<Rightarrow> node" where
  "editLine el text = el\<lparr>classes := [''ln'', ''is-ed''], shown := Raw text\<rparr>"

text \<open>\<open>_makeLine(text)\<close>: a fresh \<open>div\<close> of class \<open>ln\<close>, rendered.\<close>

definition makeLine :: "jstring \<Rightarrow> node" where
  "makeLine text = renderLine
     \<lparr>classes = [''ln''], ds_cb = False, ds_lang = [], ds_code = [], ds_md = text, shown = Raw []\<rparr> text"

text \<open>\<open>makeCodeBlock(lang, code, editor)\<close> of code-block.js.\<close>

definition makeCodeBlock :: "jstring \<Rightarrow> jstring \<Rightarrow> node" where
  "makeCodeBlock lang code =
     \<lparr>classes = [''cb''], ds_cb = True, ds_lang = lang, ds_code = code, ds_md = [],
      shown = CodeUi lang code\<rparr>"

section \<open>The editor and its structural parser (MarkdownEditor.js, _draw)\<close>

text \<open>
  The state of a mounted editor: the children of the live area, the canonical string and
  the two history stacks, oldest entry first (the top of a stack is its last element).
\<close>

record editor =
  live :: "node list"
  md :: jstring
  undoStack :: "jstring list"
  redoStack :: "jstring list"

text \<open>
  \<open>line.match(/^(`{3,}|~{3,})(.*)/)\<close>: the fence run and the rest of the line up to
  its first line terminator, when the line opens with three or more backticks or three
  or more tildes.
\<close>

definition fence_match :: "jstring \<Rightarrow> (jstring \<times> jstring) option" where
  "fence_match line =
    (if 3 \<le> length (takeWhile (\<lambda>x. x = 96) line)
     then Some (takeWhile (\<lambda>x. x = 96) line,
                takeWhile (\<lambda>x. \<not> is_line_end x) (dropWhile (\<lambda>x. x = 96) line))
     else if 3 \<le> length (takeWhile (\<lambda>x. x = 126) line)
     then Some (takeWhile (\<lambda>x. x = 126) line,
                takeWhile (\<lambda>x. \<not> is_line_end x) (dropWhile (\<lambda>x. x = 126) line))
     else None)"

text \<open>\<open>/^(`{3,}|~{3,})\s*$/.test(line)\<close>\<close>

definition fence_close :: "jstring \<Rightarrow> bool" where
  "fence_close line = (bare_run 96 line \<or> bare_run 126 line)"

text \<open>
  The inner loop of \<open>_draw\<close>: the lines up to the first closing fence, and the lines
  after it. When no line closes the fence, all lines are code and nothing is left.
\<close>

fun collect_code :: "jstring list \<Rightarrow> jstring list \<times> jstring list" where
  "collect_code [] = ([], [])"
| "collect_code (l # ls) =
     (if fence_close l then ([], ls)
      else (l # fst (collect_code ls), snd (collect_code ls)))"

lemma collect_code_length: "length (snd (collect_code ls)) \<le> length ls"
  by (induction ls) auto

text \<open>The outer loop of \<open>_draw\<close>, over the lines from index \<open>i\<close> on.\<close>

function draw_loop :: "jstring list \<Rightarrow> node list" where
  "draw_loop [] = []"
| "draw_loop (line # rest) =
     (case fence_match line of
        Some fence \<Rightarrow>
          makeCodeBlock (js_trim (snd fence)) (join_lines (fst (collect_code rest)))
            # draw_loop (snd (collect_code rest))
      | None \<Rightarrow> makeLine line # draw_loop rest)"
  by pat_completeness auto
termination
  by (relation "measure length") (auto simp: collect_code_length less_Suc_eq_le)

definition draw :: "editor \<Rightarrow> editor" where
  "draw ed = ed\<lparr>live :=
     (if md ed = [] then [makeLine []] else draw_loop (split_lines (md ed)))\<rparr>"

section \<open>Serialisation and history (MarkdownEditor.js, _sync, _pushUndo, _undo, _redo)\<close>

text \<open>
  \<open>el.textContent\<close>. For text that was set as text it is that text. For markup that the
  editor generated it is whatever the browser extracts from the markup: \<open>tc\<close>, a
  parameter of the model.
\<close>

fun textContent :: "(content \<Rightarrow> jstring) \<Rightarrow> content \<Rightarrow> jstring" where
  "textContent tc (Raw t) = t"
| "textContent tc c = tc c"

definition has_class :: "string \<Rightarrow> node \<Rightarrow> bool" where
  "has_class c n = (c \<in> set (classes n))"

text \<open>
  The body of the \<open>forEach\<close> of \<open>_sync\<close> for one child: a line that is being edited
  first stores its text in \<open>dataset.md\<close>; then the child contributes its lines.
\<close>

definition commit_node :: "(content \<Rightarrow> jstring) \<Rightarrow> node \<Rightarrow> node" where
  "commit_node tc n =
     (if \<not> ds_cb n \<and> has_class ''ln'' n \<and> has_class ''is-ed'' n
      then n\<lparr>ds_md := textContent tc (shown n)\<rparr> else n)"

definition fence3 :: jstring where
  "fence3 = [96, 96, 96]"

definition sync_parts :: "node \<Rightarrow> jstring list" where
  "sync_parts n =
     (if ds_cb n then (fence3 @ ds_lang n) # split_lines (ds_code n) @ [fence3]
      else if has_class ''ln'' n then [ds_md n]
      else [])"

definition sync_text :: "(content \<Rightarrow> jstring) \<Rightarrow> node list \<Rightarrow> jstring" where
  "sync_text tc ns = join_lines (concat (map (\<lambda>n. sync_parts (commit_node tc n)) ns))"

text \<open>
  \<open>_pushUndo(state)\<close>: nothing happens for the empty string and for a state equal to the
  top of the undo stack; otherwise the state is pushed, the oldest entry is dropped when
  the stack has grown beyond 150, and the redo stack is emptied.
\<close>

definition pushUndo :: "jstring \<Rightarrow> editor \<Rightarrow> editor" where
  "pushUndo state ed =
     (if state = [] \<or> (undoStack ed \<noteq> [] \<and> state = last (undoStack ed)) then ed
      else ed\<lparr>undoStack :=
                 (if 150 < length (undoStack ed @ [state]) then tl (undoStack ed @ [state])
                  else undoStack ed @ [state]),
              redoStack := []\<rparr>)"

text \<open>
  \<open>_sync()\<close>. The word count, the hidden input and the placeholder that it also updates
  are outside the state modelled here.
\<close>

definition sync :: "(content \<Rightarrow> jstring) \<Rightarrow> editor \<Rightarrow> editor" where
  "sync tc ed =
     (let ed1 = ed\<lparr>live := map (commit_node tc) (live ed)\<rparr>;
          newMd = sync_text tc (live ed)
      in if newMd \<noteq> md ed then (pushUndo (md ed) ed1)\<lparr>md := newMd\<rparr> else ed1)"

definition undo :: "editor \<Rightarrow> editor" where
  "undo ed =
     (if undoStack ed = [] then ed
      else draw (ed\<lparr>redoStack := redoStack ed @ [md ed],
                     md := last (undoStack ed),
                     undoStack := butlast (undoStack ed)\<rparr>))"

definition redo :: "editor \<Rightarrow> editor" where
  "redo ed =
     (if redoStack ed = [] then ed
      else draw (ed\<lparr>undoStack := undoStack ed @ [md ed],
                     md := last (redoStack ed),
                     redoStack := butlast (redoStack ed)\<rparr>))"

section \<open>Loading and clearing (MarkdownEditor.js, loadValue, clear; utils.js, isHtml)\<close>

text \<open>\<open>[a-z]\<close> under the flag \<open>i\<close>: the ASCII letters of either case.\<close>

definition is_letter :: "nat \<Rightarrow> bool" where
  "is_letter c = ((97 \<le> c \<and> c \<le> 122) \<or> (65 \<le> c \<and> c \<le> 90))"

text \<open>
  \<open>isHtml(s)\<close>, the test of \<open>/<[a-z][\s\S]*>/i\<close>: somewhere a \<open><\<close> is followed by a
  letter and, anywhere after that letter, by a \<open>>\<close>.
\<close>

fun isHtml :: "jstring \<Rightarrow> bool" where
  "isHtml [] = False"
| "isHtml (c # cs) =
     ((c = 60 \<and> (case cs of [] \<Rightarrow> False | d # ds \<Rightarrow> is_letter d \<and> 62 \<in> set ds))
      \<or> isHtml cs)"

text \<open>\<open>.replace(/\r\n/g, '\n')\<close> and \<open>.replace(/\r/g, '\n')\<close>.\<close>

fun replace_crlf :: "jstring \<Rightarrow> jstring" where
  "replace_crlf (c # d # cs) =
     (if c = 13 \<and> d = 10 then 10 # replace_crlf cs else c # replace_crlf (d # cs))"
| "replace_crlf cs = cs"

definition replace_cr :: "jstring \<Rightarrow> jstring" where
  "replace_cr s = map (\<lambda>c. if c = 13 then 10 else c) s"

text \<open>
  \<open>loadValue(value)\<close> on a mounted editor. \<open>htmlToMarkdown\<close> walks the tree that the
  browser's \<open>DOMParser\<close> builds, so it is the parameter \<open>h2m\<close>.
\<close>

definition loadValue :: "(jstring \<Rightarrow> jstring) \<Rightarrow> jstring \<Rightarrow> editor \<Rightarrow> editor" where
  "loadValue h2m v ed =
     draw (ed\<lparr>md := replace_cr (replace_crlf
       (if v = [] then [] else if isHtml v then h2m v else v))\<rparr>)"

definition clear :: "editor \<Rightarrow> editor" where
  "clear ed = draw (ed\<lparr>md := [], undoStack := [], redoStack := []\<rparr>)"

text \<open>The editor after \<open>init()\<close> without an initial value.\<close>

definition init_editor :: editor where
  "init_editor = draw \<lparr>live = [], md = [], undoStack = [], redoStack = []\<rparr>"

text \<open>
  The states that snapshot pushes, undos and redos lead to, from a state with an empty
  history (a freshly mounted or a cleared editor). An edit changes the children of the
  live area in any way and is followed by \<open>_sync\<close>, which is the only caller of
  \<open>_pushUndo\<close>.
\<close>

inductive reachable :: "(content \<Rightarrow> jstring) \<Rightarrow> editor \<Rightarrow> bool" for tc where
  start: "undoStack ed = [] \<Longrightarrow> redoStack ed = [] \<Longrightarrow> reachable tc ed"
| edit: "reachable tc ed \<Longrightarrow> reachable tc (sync tc (ed\<lparr>live := ns\<rparr>))"
| undone: "reachable tc ed \<Longrightarrow> reachable tc (undo ed)"
| redone: "reachable tc ed \<Longrightarrow> reachable tc (redo ed)"

section \<open>The inline renderer (line-renderer.js, inlineRender; utils.js, esc)\<close>

text \<open>
  \<open>esc(s)\<close> of utils.js: three global replacements of one character each, the
  ampersand first.
\<close>

definition replace_char :: "nat \<Rightarrow> jstring \<Rightarrow> jstring \<Rightarrow> jstring" where
  "replace_char c rep s = concat (map (\<lambda>x. if x = c then rep else [x]) s)"

definition esc :: "jstring \<Rightarrow> jstring" where
  "esc s = replace_char 62 (js ''&gt;'') (replace_char 60 (js ''&lt;'') (replace_char 38 (js ''&amp;'') s))"

text \<open>
  \<open>s.replace(re, replacement)\<close> for a global pattern without an empty match. The
  matcher \<open>m\<close> says whether the pattern matches at the start of its argument, and then
  gives the replacement text and the length of the match; the search goes on after the
  match, or one character further when there is none.
\<close>

fun replace_all :: "(jstring \<Rightarrow> (jstring \<times> nat) option) \<Rightarrow> jstring \<Rightarrow> jstring" where
  "replace_all m [] = []"
| "replace_all m (c # cs) =
     (case m (c # cs) of
        Some found \<Rightarrow> fst found @ replace_all m (drop (snd found - 1) cs)
      | None \<Rightarrow> c # replace_all m cs)"

text \<open>
  The patterns \<open>d([^d\n]+)d\<close> for a delimiter character \<open>d\<close> (inline code and the
  two italics). The greedy class takes every character up to the next \<open>d\<close> or line
  feed, and the match needs a \<open>d\<close> right there.
\<close>

definition m_span :: "nat \<Rightarrow> jstring \<Rightarrow> jstring \<Rightarrow> jstring \<Rightarrow> (jstring \<times> nat) option" where
  "m_span d pre post s =
     (case s of
        [] \<Rightarrow> None
      | c # r \<Rightarrow>
          (let body = takeWhile (\<lambda>x. x \<noteq> d \<and> x \<noteq> 10) r in
           if c = d \<and> body \<noteq> [] \<and> starts_with [d] (drop (length body) r)
           then Some (pre @ body @ post, length body + 2)
           else None))"

text \<open>
  The patterns \<open>d(.+?)d\<close> for a delimiter string \<open>d\<close> (bold and italic, the two
  bolds, strikethrough): the shortest non-empty run of characters other than line
  terminators after which \<open>d\<close> follows.
\<close>

fun lazy_body :: "jstring \<Rightarrow> jstring \<Rightarrow> jstring option" where
  "lazy_body d [] = None"
| "lazy_body d (c # cs) =
     (if is_line_end c then None
      else if starts_with d cs then Some [c]
      else map_option (\<lambda>b. c # b) (lazy_body d cs))"

definition m_wrap :: "jstring \<Rightarrow> jstring \<Rightarrow> jstring \<Rightarrow> jstring \<Rightarrow> (jstring \<times> nat) option" where
  "m_wrap d pre post s =
     (if starts_with d s
      then (case lazy_body d (drop (length d) s) of
              Some body \<Rightarrow> Some (pre @ body @ post, 2 * length d + length body)
            | None \<Rightarrow> None)
      else None)"

text \<open>
  Images, \<open>!\[([^\]]*)\]\(([^)]+)\)\<close>, and links, \<open>\[([^\]]+)\]\(([^)]+)\)\<close>.
\<close>

definition m_image :: "jstring \<Rightarrow> (jstring \<times> nat) option" where
  \<open>m_image s =
     (let alt = takeWhile (\<lambda>x. x \<noteq> 93) (drop 2 s);
          r = drop (length alt) (drop 2 s);
          src = takeWhile (\<lambda>x. x \<noteq> 41) (drop 2 r)
      in if starts_with [33, 91] s \<and> starts_with [93, 40] r \<and> src \<noteq> []
            \<and> starts_with [41] (drop (length src) (drop 2 r))
         then Some (js ''<img src="'' @ src @ js ''" alt="'' @ alt @ js ''" loading="lazy">'',
                    length alt + length src + 5)
         else None)\<close>

definition m_link :: "jstring \<Rightarrow> (jstring \<times> nat) option" where
  \<open>m_link s =
     (let txt = takeWhile (\<lambda>x. x \<noteq> 93) (drop 1 s);
          r = drop (length txt) (drop 1 s);
          href = takeWhile (\<lambda>x. x \<noteq> 41) (drop 2 r)
      in if starts_with [91] s \<and> txt \<noteq> [] \<and> starts_with [93, 40] r \<and> href \<noteq> []
            \<and> starts_with [41] (drop (length href) (drop 2 r))
         then Some (js ''<a href="'' @ href @ js ''" target="_blank" rel="noopener">'' @ txt @ js ''</a>'',
                    length txt + length href + 4)
         else None)\<close>

text \<open>\<open>inlineRender(raw)\<close> of line-renderer.js.\<close>

definition inlineRender :: "jstring \<Rightarrow> jstring" where
  \<open>inlineRender raw =
     (let s = esc raw;
          s = replace_all (m_span 96 (js ''<span class="ic">'') (js ''</span>'')) s;
          s = replace_all (m_wrap (js ''***'') (js ''<strong><em>'') (js ''</em></strong>'')) s;
          s = replace_all (m_wrap (js ''**'') (js ''<strong>'') (js ''</strong>'')) s;
          s = replace_all (m_wrap (js ''__'') (js ''<strong>'') (js ''</strong>'')) s;
          s = replace_all (m_span 42 (js ''<em>'') (js ''</em>'')) s;
          s = replace_all (m_span 95 (js ''<em>'') (js ''</em>'')) s;
          s = replace_all (m_wrap (js ''~~'') (js ''<del>'') (js ''</del>'')) s;
          s = replace_all m_image s;
          s = replace_all m_link s
      in s)\<close>

section \<open>Focus, click and Backspace (MarkdownEditor.js, _focusLine, _blurLine, _onClick, _handleBackspace)\<close>

text \<open>
  \<open>querySelector\<close> on the live area: the first child in document order that has the
  property, by its index. A child is referred to by its index; an index outside the
  list is an element that is not in the live area, and changing it changes nothing here.
\<close>

fun query :: "(node \<Rightarrow> bool) \<Rightarrow> node list \<Rightarrow> nat option" where
  "query p [] = None"
| "query p (n # ns) = (if p n then Some 0 else map_option Suc (query p ns))"

definition is_ed_line :: "node \<Rightarrow> bool" where
  "is_ed_line n = (has_class ''ln'' n \<and> has_class ''is-ed'' n)"

text \<open>\<open>_blurLine(el)\<close>; \<open>None\<close> is \<open>null\<close>.\<close>

definition blurLine :: "(content \<Rightarrow> jstring) \<Rightarrow> nat option \<Rightarrow> editor \<Rightarrow> editor" where
  "blurLine tc el ed =
     (case el of
        None \<Rightarrow> ed
      | Some i \<Rightarrow>
          if length (live ed) \<le> i \<or> ds_cb (live ed ! i) then ed
          else ed\<lparr>live := (live ed)
                 [i := renderLine ((live ed ! i)\<lparr>ds_md := textContent tc (shown (live ed ! i))\<rparr>)
                         (textContent tc (shown (live ed ! i)))]\<rparr>)"

text \<open>
  \<open>_focusLine(el, atStart)\<close>. For a code block it only moves the keyboard focus and
  the caret, which are not part of the state modelled here, and so is \<open>atStart\<close>.
\<close>

definition focusLine :: "(content \<Rightarrow> jstring) \<Rightarrow> nat \<Rightarrow> editor \<Rightarrow> editor" where
  "focusLine tc i ed =
     (if length (live ed) \<le> i \<or> ds_cb (live ed ! i) then ed
      else
        (let ed1 = (case query is_ed_line (live ed) of
                      Some j \<Rightarrow> if j \<noteq> i then blurLine tc (Some j) ed else ed
                    | None \<Rightarrow> ed)
         in ed1\<lparr>live := (live ed1)[i := editLine (live ed1 ! i) (ds_md (live ed1 ! i))]\<rparr>))"

text \<open>
  \<open>_onClick(e)\<close>. The target is the child that was clicked, or none for the empty
  area. A code block stops the event itself, and \<open>_onClick\<close> returns at once for a
  target inside an element of class \<open>cb\<close>.
\<close>

definition last_line :: "node list \<Rightarrow> nat option" where
  "last_line ns = map_option (\<lambda>k. length ns - 1 - k) (query (has_class ''ln'') (rev ns))"

definition onClick :: "(content \<Rightarrow> jstring) \<Rightarrow> nat option \<Rightarrow> editor \<Rightarrow> editor" where
  "onClick tc target ed =
     (case target of
        Some i \<Rightarrow>
          if length (live ed) \<le> i \<or> ds_cb (live ed ! i) \<or> has_class ''cb'' (live ed ! i) then ed
          else if has_class ''ln'' (live ed ! i)
          then (if has_class ''is-ed'' (live ed ! i) then ed else focusLine tc i ed)
          else (case last_line (live ed) of
                  Some j \<Rightarrow> focusLine tc j ed
                | None \<Rightarrow> focusLine tc (length (live ed)) (ed\<lparr>live := live ed @ [makeLine []]\<rparr>))
      | None \<Rightarrow>
          (case last_line (live ed) of
             Some j \<Rightarrow> focusLine tc j ed
           | None \<Rightarrow> focusLine tc (length (live ed)) (ed\<lparr>live := live ed @ [makeLine []]\<rparr>)))"

text \<open>\<open>_prevLine(el)\<close>: the nearest earlier child that is a line or a code block.\<close>

definition prevLine :: "nat \<Rightarrow> node list \<Rightarrow> nat option" where
  "prevLine i ns =
     map_option (\<lambda>k. i - 1 - k) (query (\<lambda>n. has_class ''ln'' n \<or> ds_cb n) (rev (take i ns)))"

definition remove_at :: "nat \<Rightarrow> node list \<Rightarrow> node list" where
  "remove_at i ns = take i ns @ drop (Suc i) ns"

text \<open>
  \<open>_handleBackspace(e, focused)\<close>. \<open>at_start\<close> says that there is a selection, that
  it is collapsed and that it is at offset 0. On an empty line the line is removed and
  the previous child is edited, whatever it is; on a line with text the line is merged
  into the previous child unless that is a code block. Otherwise the browser deletes a
  character, which is outside this handler.
\<close>

definition handleBackspace :: "(content \<Rightarrow> jstring) \<Rightarrow> bool \<Rightarrow> nat \<Rightarrow> editor \<Rightarrow> editor" where
  "handleBackspace tc at_start i ed =
     (let text = textContent tc (shown (live ed ! i));
          prev = prevLine i (live ed)
      in if at_start \<and> text = [] then
           (let ed1 = sync tc (ed\<lparr>live := remove_at i (live ed)\<rparr>) in
            case prev of
              None \<Rightarrow> ed1
            | Some j \<Rightarrow>
                (let ed2 = blurLine tc (query (has_class ''is-ed'') (live ed1)) ed1
                 in ed2\<lparr>live := (live ed2)[j := editLine (live ed2 ! j) (ds_md (live ed2 ! j))]\<rparr>))
         else if at_start then
           (case prev of
              None \<Rightarrow> ed
            | Some j \<Rightarrow>
                if ds_cb (live ed ! j) then ed
                else sync tc (ed\<lparr>live := (remove_at i (live ed))
                       [j := (editLine (live ed ! j) (ds_md (live ed ! j) @ text))
                               \<lparr>ds_md := ds_md (live ed ! j) @ text\<rparr>]\<rparr>))
         else ed)"

text \<open>The branch of \<open>_onKeydown\<close> for the Backspace key.\<close>

definition keyBackspace :: "(content \<Rightarrow> jstring) \<Rightarrow> bool \<Rightarrow> editor \<Rightarrow> editor" where
  "keyBackspace tc at_start ed =
     (case query is_ed_line (live ed) of
        None \<Rightarrow> ed
      | Some i \<Rightarrow> handleBackspace tc at_start i ed)"

section \<open>Notions for the properties\<close>

text \<open>
  The invariant of the history: no entry of the undo stack is empty and no two
  neighbours in it are equal; and while something can be redone, the same holds of the
  undo stack followed by the current text and the redo entries above the oldest one.
\<close>

definition hist_inv :: "editor \<Rightarrow> bool" where
  "hist_inv ed =
     ([] \<notin> set (undoStack ed) \<and> distinct_adj (undoStack ed) \<and>
      (redoStack ed \<noteq> [] \<longrightarrow>
         [] \<notin> set (undoStack ed @ md ed # rev (tl (redoStack ed))) \<and>
         distinct_adj (undoStack ed @ md ed # rev (tl (redoStack ed)))))"

text \<open>Pushing a sequence of snapshots, the first one first.\<close>

definition push_all :: "jstring list \<Rightarrow> editor \<Rightarrow> editor" where
  "push_all snaps ed = foldl (\<lambda>e s. pushUndo s e) ed snaps"

text \<open>Example data: the \<open>k\<close> one-character strings with the codes 1 to \<open>k\<close>.\<close>

definition numbered_snaps :: "nat \<Rightarrow> jstring list" where
  "numbered_snaps k = map (\<lambda>n. [n]) [1..<Suc k]"

text \<open>Example data: a browser that extracts no text, and editors after a few edits.\<close>

definition no_text :: "content \<Rightarrow> jstring" where
  "no_text c = []"

definition retype :: "jstring \<Rightarrow> editor \<Rightarrow> editor" where
  "retype s ed = sync no_text (ed\<lparr>live := [makeLine s]\<rparr>)"

definition two_edits :: editor where
  "two_edits = retype (js ''b'') (retype (js ''a'') init_editor)"

definition three_edits :: editor where
  "three_edits = retype (js ''c'') two_edits"

text \<open>
  The lines of a text in which a line ends at a CR LF pair, at a CR or at a LF: what
  normalising the line endings must keep.
\<close>

fun split_endings :: "jstring \<Rightarrow> jstring list" where
  "split_endings [] = [[]]"
| "split_endings (c # d # cs) =
     (if c = 13 \<and> d = 10 then [] # split_endings cs
      else if c = 13 \<or> c = 10 then [] # split_endings (d # cs)
      else (c # hd (split_endings (d # cs))) # tl (split_endings (d # cs)))"
| "split_endings [c] = (if c = 13 \<or> c = 10 then [[], []] else [[c]])"

text \<open>Example data: a text with a tag, and a text with a CR LF pair and a lone CR.\<close>

definition tagged_example :: jstring where
  \<open>tagged_example = js ''<p>x</p>''\<close>

definition crlf_example :: jstring where
  "crlf_example = js ''a'' @ [13, 10] @ js ''b'' @ [13] @ js ''c''"

text \<open>
  The pieces of a canonical string: a text line, or a fenced group with its opening
  line, its interior lines and its closing line.
\<close>

datatype seg = Text jstring | Fence jstring "jstring list" jstring

fun seg_lines :: "seg \<Rightarrow> jstring list" where
  "seg_lines (Text l) = [l]"
| "seg_lines (Fence opener inner closer) = opener # inner @ [closer]"

text \<open>What follows the fence run on an opening line, up to its first line terminator.\<close>

definition fence_tail :: "jstring \<Rightarrow> jstring" where
  "fence_tail opener = takeWhile (\<lambda>x. \<not> is_line_end x) (dropWhile (\<lambda>x. x = hd opener) opener)"

text \<open>The trailing token of an opening line: what follows its run of fence characters.\<close>

definition fence_rest :: "jstring \<Rightarrow> jstring" where
  "fence_rest opener = dropWhile (\<lambda>x. x = hd opener) opener"

text \<open>
  A text line opens no fence; in a fenced group the opening line opens a fence and holds
  no line terminator, no interior line closes the fence and the closing line does. No
  line holds a line feed.
\<close>

fun seg_ok :: "seg \<Rightarrow> bool" where
  "seg_ok (Text l) = (fence_match l = None \<and> 10 \<notin> set l)"
| "seg_ok (Fence opener inner closer) =
     (fence_match opener \<noteq> None \<and> \<not> list_ex is_line_end opener \<and>
      list_all (\<lambda>l. \<not> fence_close l \<and> 10 \<notin> set l) inner \<and>
      fence_close closer \<and> 10 \<notin> set closer)"

text \<open>
  The blocks of the document, and the block that a child of the live area holds: for a
  code block the language and the code of its \<open>dataset\<close>, for a line its raw text.
\<close>

datatype block = TextLine jstring | CodeBlock jstring jstring

definition block_of :: "node \<Rightarrow> block" where
  "block_of n = (if ds_cb n then CodeBlock (ds_lang n) (ds_code n) else TextLine (ds_md n))"

text \<open>
  The block that a piece stands for, with the trimmed trailing token of the opening line
  as language and the interior lines, joined by line feeds, as code; and the element
  that \<open>_draw\<close> builds for it.
\<close>

fun seg_block :: "seg \<Rightarrow> block" where
  "seg_block (Text l) = TextLine l"
| "seg_block (Fence opener inner closer) = CodeBlock (js_trim (fence_rest opener)) (join_lines inner)"

fun seg_node :: "seg \<Rightarrow> node" where
  "seg_node (Text l) = makeLine l"
| "seg_node (Fence opener inner closer) = makeCodeBlock (js_trim (fence_rest opener)) (join_lines inner)"

fun is_fence :: "seg \<Rightarrow> bool" where
  "is_fence (Text l) = False"
| "is_fence (Fence opener inner closer) = True"

text \<open>
  The languages and the elements that survive a round trip through the canonical string.
\<close>

definition lang_ok :: "jstring \<Rightarrow> bool" where
  "lang_ok lang = (\<not> list_ex is_line_end lang \<and> js_trim lang = lang \<and> (lang = [] \<or> hd lang \<noteq> 96))"

definition node_ok :: "(content \<Rightarrow> jstring) \<Rightarrow> node \<Rightarrow> bool" where
  "node_ok tc n =
     (if ds_cb n
      then lang_ok (ds_lang n) \<and> list_all (\<lambda>l. \<not> fence_close l) (split_lines (ds_code n))
      else list_all (\<lambda>l. fence_match l = None) (concat (map split_lines (sync_parts (commit_node tc n)))))"

text \<open>The lines that a child contributes to the canonical string.\<close>

definition lines_of :: "(content \<Rightarrow> jstring) \<Rightarrow> node \<Rightarrow> jstring list" where
  "lines_of tc n = concat (map split_lines (sync_parts (commit_node tc n)))"

text \<open>
  The structural parser as the specification words it: a fence is closed only by a bare
  run of the character that opened it. It differs from \<open>_draw\<close> in that point alone.
\<close>

fun collect_code_same :: "nat \<Rightarrow> jstring list \<Rightarrow> jstring list \<times> jstring list" where
  "collect_code_same c [] = ([], [])"
| "collect_code_same c (l # ls) =
     (if bare_run c l then ([], ls)
      else (l # fst (collect_code_same c ls), snd (collect_code_same c ls)))"

lemma collect_code_same_length: "length (snd (collect_code_same c ls)) \<le> length ls"
  by (induction ls) auto

function parse_same_char :: "jstring list \<Rightarrow> node list" where
  "parse_same_char [] = []"
| "parse_same_char (line # rest) =
     (case fence_match line of
        Some fence \<Rightarrow>
          makeCodeBlock (js_trim (snd fence)) (join_lines (fst (collect_code_same (hd line) rest)))
            # parse_same_char (snd (collect_code_same (hd line) rest))
      | None \<Rightarrow> makeLine line # parse_same_char rest)"
  by pat_completeness auto
termination
  by (relation "measure length") (auto simp: collect_code_same_length less_Suc_eq_le)

text \<open>Example data: the document and the fenced text of the examples.\<close>

definition example_nodes :: "node list" where
  "example_nodes = [makeLine (js ''Before''), makeCodeBlock (js ''go'') (js ''fmt.Println(1)''),
     makeLine (js ''After'')]"

definition example_segs :: "seg list" where
  "example_segs = [Fence (js ''``` py '') [js ''a''] (js ''~~~ ''), Text (js ''b'')]"

text \<open>
  The line kinds as the specification describes them, by the shape of the line: \<open>n\<close>
  hash signs and a space; three or more dashes or three or more asterisks and then white
  space only; a leading \<open>>\<close>; a bullet character and a space; digits, a period
  and a space; white space only.
\<close>

definition is_heading :: "nat \<Rightarrow> jstring \<Rightarrow> bool" where
  "is_heading n t = (\<exists>r. t = replicate n 35 @ 32 # r)"

definition is_rule :: "jstring \<Rightarrow> bool" where
  "is_rule t = (\<exists>n ws. 3 \<le> n \<and> (t = replicate n 45 @ ws \<or> t = replicate n 42 @ ws)
     \<and> (\<forall>c \<in> set ws. is_space c))"

definition is_quote :: "jstring \<Rightarrow> bool" where
  "is_quote t = (\<exists>r. t = 62 # r)"

definition is_bullet :: "jstring \<Rightarrow> bool" where
  "is_bullet t = (\<exists>m r. m \<in> {45, 42, 43} \<and> t = m # 32 # r)"

definition is_numbered :: "jstring \<Rightarrow> bool" where
  "is_numbered t = (\<exists>ds r. ds \<noteq> [] \<and> (\<forall>d \<in> set ds. is_digit d) \<and> t = ds @ 46 # 32 # r)"

definition is_blank :: "jstring \<Rightarrow> bool" where
  "is_blank t = (\<forall>c \<in> set t. is_space c)"

text \<open>The kind of the first pattern of an ordered list that matches, with a default.\<close>

fun first_match :: "(('a \<Rightarrow> bool) \<times> 'b) list \<Rightarrow> 'b \<Rightarrow> 'a \<Rightarrow> 'b" where
  "first_match [] d t = d"
| "first_match (pk # pks) d t = (if fst pk t then snd pk else first_match pks d t)"

definition precedence :: "((jstring \<Rightarrow> bool) \<times> line_kind) list" where
  "precedence =
     [(is_heading 6, H6), (is_heading 5, H5), (is_heading 4, H4), (is_heading 3, H3),
      (is_heading 2, H2), (is_heading 1, H1), (is_rule, Hr), (is_quote, Bq), (is_bullet, Ul),
      (is_numbered, Ol), (is_blank, Empty)]"

text \<open>
  At most one child of the live area is a line that is being edited.
\<close>

definition single_editing :: "node list \<Rightarrow> bool" where
  "single_editing ns =
     (\<forall>a < length ns. \<forall>b < length ns. is_ed_line (ns ! a) \<and> is_ed_line (ns ! b) \<longrightarrow> a = b)"

text \<open>The text lines that are being edited.\<close>

definition editing_lines :: "editor \<Rightarrow> node list" where
  "editing_lines ed = filter (\<lambda>n. \<not> ds_cb n \<and> is_ed_line n) (live ed)"

text \<open>Example data: a code block followed by an empty line and two more lines.\<close>

definition code_then_lines :: editor where
  "code_then_lines = loadValue (\<lambda>v. v) (js ''```\<newline>x\<newline>```\<newline>\<newline>b\<newline>c'') init_editor"

section \<open>Properties of the history\<close>

lemma draw_hist [simp]:
  "md (draw ed) = md ed" "undoStack (draw ed) = undoStack ed" "redoStack (draw ed) = redoStack ed"
  by (simp_all add: draw_def)

lemma distinct_adj_tl: "distinct_adj xs \<Longrightarrow> distinct_adj (tl xs)"
  by (cases xs) (auto simp: distinct_adj_Cons)

lemma pushUndo_skip:
  "s = [] \<or> (undoStack ed \<noteq> [] \<and> s = last (undoStack ed)) \<Longrightarrow> pushUndo s ed = ed"
  by (simp add: pushUndo_def)

lemma pushUndo_push:
  "s \<noteq> [] \<Longrightarrow> (undoStack ed \<noteq> [] \<Longrightarrow> s \<noteq> last (undoStack ed)) \<Longrightarrow>
   redoStack (pushUndo s ed) = [] \<and> md (pushUndo s ed) = md ed \<and>
   undoStack (pushUndo s ed) =
     (if 150 < length (undoStack ed @ [s]) then tl (undoStack ed @ [s]) else undoStack ed @ [s])"
  by (auto simp: pushUndo_def)

lemma hist_inv_push:
  assumes "hist_inv ed"
  shows "hist_inv ((pushUndo (md ed) ed)\<lparr>md := n\<rparr>)"
proof (cases "md ed = [] \<or> (undoStack ed \<noteq> [] \<and> md ed = last (undoStack ed))")
  case True
  then have skip: "pushUndo (md ed) ed = ed" by (rule pushUndo_skip)
  have "redoStack ed = []"
  proof (rule ccontr)
    assume r: "redoStack ed \<noteq> []"
    with assms have a: "md ed \<noteq> []" and b: "distinct_adj (undoStack ed @ md ed # rev (tl (redoStack ed)))"
      by (auto simp: hist_inv_def)
    from b have "undoStack ed = [] \<or> last (undoStack ed) \<noteq> md ed"
      by (auto simp: distinct_adj_append_iff)
    with True a show False by auto
  qed
  with assms show ?thesis by (simp add: skip hist_inv_def)
next
  case False
  then have p: "md ed \<noteq> []" "undoStack ed \<noteq> [] \<Longrightarrow> md ed \<noteq> last (undoStack ed)" by auto
  from assms have u: "[] \<notin> set (undoStack ed)" "distinct_adj (undoStack ed)"
    by (auto simp: hist_inv_def)
  have d: "distinct_adj (undoStack ed @ [md ed])"
    using u p by (auto simp: distinct_adj_append_iff)
  have s: "[] \<notin> set (undoStack ed @ [md ed])" using u p by auto
  have "[] \<notin> set (tl (undoStack ed @ [md ed]))"
    using s by (metis list.set_sel(2) tl_Nil)
  with d s show ?thesis
    using pushUndo_push [OF p] by (auto simp: hist_inv_def distinct_adj_tl simp del: tl_append2)
qed

lemma hist_inv_sync: "hist_inv ed \<Longrightarrow> hist_inv (sync tc (ed\<lparr>live := ns\<rparr>))"
proof -
  assume h: "hist_inv ed"
  have e: "hist_inv (ed\<lparr>live := x\<rparr>)" for x using h by (simp add: hist_inv_def)
  have "hist_inv ((pushUndo (md ed) (ed\<lparr>live := x\<rparr>))\<lparr>md := n\<rparr>)" for x n
    using hist_inv_push [OF e [of x], of n] by simp
  then show ?thesis using e by (simp add: sync_def Let_def)
qed

lemma hist_inv_undo: "hist_inv ed \<Longrightarrow> hist_inv (undo ed)"
proof (cases "undoStack ed = []")
  case True then show "hist_inv ed \<Longrightarrow> ?thesis" by (simp add: undo_def)
next
  case False
  assume h: "hist_inv ed"
  from False obtain U p where U: "undoStack ed = U @ [p]" by (metis rev_exhaust)
  show ?thesis
  proof (cases "redoStack ed = []")
    case True
    with h U show ?thesis
      by (auto simp: hist_inv_def undo_def distinct_adj_append_iff)
  next
    case r: False
    with h U show ?thesis
      by (auto simp: hist_inv_def undo_def distinct_adj_append_iff distinct_adj_Cons)
  qed
qed

lemma hist_inv_redo: "hist_inv ed \<Longrightarrow> hist_inv (redo ed)"
proof (cases "redoStack ed = []")
  case True then show "hist_inv ed \<Longrightarrow> ?thesis" by (simp add: redo_def)
next
  case False
  assume h: "hist_inv ed"
  from False obtain R q where R: "redoStack ed = R @ [q]" by (metis rev_exhaust)
  show ?thesis
  proof (cases "R = []")
    case True
    with h R show ?thesis
      by (auto simp: hist_inv_def redo_def distinct_adj_append_iff)
  next
    case r: False
    with h R show ?thesis
      by (auto simp: hist_inv_def redo_def distinct_adj_append_iff distinct_adj_Cons)
  qed
qed

lemma reachable_hist_inv: "reachable tc ed \<Longrightarrow> hist_inv ed"
proof (induction rule: reachable.induct)
  case (start ed) then show ?case by (simp add: hist_inv_def)
next
  case (edit ed ns) then show ?case by (simp add: hist_inv_sync)
next
  case (undone ed) then show ?case by (simp add: hist_inv_undo)
next
  case (redone ed) then show ?case by (simp add: hist_inv_redo)
qed

text \<open>
  C4. In every state that snapshot pushes, undos and redos lead to: after an undo, an
  edit whose \<open>_sync\<close> finds a changed text (and therefore pushes a snapshot) leaves the
  redo stack empty.
\<close>

theorem redo_invalidation:
  assumes "reachable tc ed" and "sync_text tc ns \<noteq> md (undo ed)"
  shows "redoStack (sync tc ((undo ed)\<lparr>live := ns\<rparr>)) = []"
proof -
  let ?e = "(undo ed)\<lparr>live := ns\<rparr>"
  have h: "hist_inv ?e"
    using reachable_hist_inv [OF reachable.undone [OF assms(1)]] by (simp add: hist_inv_def)
  have m: "md ?e = md (undo ed)" by simp
  show ?thesis
  proof (cases "redoStack ?e = []")
    case True
    then show ?thesis
      by (auto simp: sync_def Let_def pushUndo_def)
  next
    case False
    with h have a: "md ?e \<noteq> []"
      and b: "distinct_adj (undoStack ?e @ md ?e # rev (tl (redoStack ?e)))"
      by (auto simp: hist_inv_def)
    from b have c: "undoStack ?e = [] \<or> md ?e \<noteq> last (undoStack ?e)"
      by (auto simp: distinct_adj_append_iff)
    show ?thesis
      using assms(2) a c by (auto simp: sync_def Let_def pushUndo_def)
  qed
qed

lemma pushUndo_fold:
  "[] \<notin> set snaps \<Longrightarrow> distinct_adj snaps \<Longrightarrow>
   (undoStack ed \<noteq> [] \<Longrightarrow> snaps \<noteq> [] \<Longrightarrow> hd snaps \<noteq> last (undoStack ed)) \<Longrightarrow>
   length (undoStack ed) \<le> 150 \<Longrightarrow>
   undoStack (foldl (\<lambda>e s. pushUndo s e) ed snaps)
     = drop (length (undoStack ed @ snaps) - 150) (undoStack ed @ snaps)"
proof (induction snaps arbitrary: ed)
  case Nil
  then show ?case by simp
next
  case (Cons s rest)
  let ?e = "pushUndo s ed"
  have s: "s \<noteq> []" using Cons.prems(1) by auto
  have t: "undoStack ed \<noteq> [] \<Longrightarrow> s \<noteq> last (undoStack ed)" using Cons.prems(3) by simp
  have u: "undoStack ?e =
     (if 150 < length (undoStack ed @ [s]) then tl (undoStack ed @ [s]) else undoStack ed @ [s])"
    using pushUndo_push [OF s t] by simp
  have ne: "undoStack ?e \<noteq> []" using u Cons.prems(4) by (cases "undoStack ed") auto
  have la: "last (undoStack ?e) = s"
    using u by (cases "undoStack ed") (auto simp: last_tl)
  have le: "length (undoStack ?e) \<le> 150" using u Cons.prems(4) by auto
  have hd: "rest \<noteq> [] \<Longrightarrow> hd rest \<noteq> last (undoStack ?e)"
    using Cons.prems(2) la by (cases rest) (auto simp: distinct_adj_Cons)
  have ih: "undoStack (foldl (\<lambda>e s. pushUndo s e) ?e rest)
      = drop (length (undoStack ?e @ rest) - 150) (undoStack ?e @ rest)"
    using Cons.IH [of ?e] Cons.prems(1,2) hd le by (auto simp: distinct_adj_Cons_Cons dest: distinct_adj_ConsD)
  show ?case
  proof (cases "150 < length (undoStack ed @ [s])")
    case False
    then show ?thesis using ih u by simp
  next
    case True
    then have l: "length (undoStack ed) = 150" using Cons.prems(4) by simp
    then obtain x xs where x: "undoStack ed = x # xs" by (cases "undoStack ed") auto
    have v: "undoStack ?e = xs @ [s]" using u True x by simp
    have n: "length (undoStack ?e @ rest) - 150 = length rest" using v l x by simp
    have m: "length (undoStack ed @ s # rest) - 150 = Suc (length rest)" using l by simp
    have A: "undoStack (foldl (\<lambda>e s. pushUndo s e) ?e rest) = drop (length rest) (undoStack ?e @ rest)"
      using ih unfolding n .
    have B: "drop (length (undoStack ed @ s # rest) - 150) (undoStack ed @ s # rest)
        = drop (length rest) (undoStack ?e @ rest)"
      unfolding m unfolding v x by simp
    show ?thesis by (simp only: foldl_Cons A B)
  qed
qed

text \<open>
  C5, as amended. After pushing 151 distinct snapshots, none of them empty, on an empty
  undo stack, the stack holds the 150 most recent ones, oldest first; the first one is
  gone.
\<close>

theorem history_bound:
  assumes "undoStack ed = []" and "distinct snaps" and "[] \<notin> set snaps"
    and "length snaps = 151"
  shows "undoStack (push_all snaps ed) = tl snaps \<and> length (undoStack (push_all snaps ed)) = 150"
proof -
  have "undoStack (push_all snaps ed) = drop (length snaps - 150) snaps"
    unfolding push_all_def
    using pushUndo_fold [of snaps ed] assms(1,2,3) by (simp add: distinct_adj_conv_nth distinct_conv_nth)
  then show ?thesis using assms(4) by (simp add: drop_Suc)
qed

lemma numbered_snaps_facts:
  "distinct (numbered_snaps k)" "[] \<notin> set (numbered_snaps k)" "length (numbered_snaps k) = k"
  by (auto simp: numbered_snaps_def distinct_map inj_on_def)

lemma init_editor_stacks: "undoStack init_editor = []" "redoStack init_editor = []" "md init_editor = []"
  by (simp_all add: init_editor_def draw_def)

theorem history_bound_witness:
  "undoStack init_editor = [] \<and> distinct (numbered_snaps 151) \<and>
   [] \<notin> set (numbered_snaps 151) \<and> length (numbered_snaps 151) = 151 \<and>
   undoStack (push_all (numbered_snaps 151) init_editor) = tl (numbered_snaps 151)"
  using history_bound [OF init_editor_stacks(1) numbered_snaps_facts]
    init_editor_stacks(1) numbered_snaps_facts [of 151] by blast

text \<open>
  C5 as stated fails when one of the snapshots is the empty string, which \<open>_pushUndo\<close>
  skips: of 151 distinct snapshots whose last is empty, the stack keeps the first 150, and
  the oldest is not evicted.
\<close>

theorem history_bound_counterexample:
  "distinct (numbered_snaps 150 @ [[]]) \<and> length (numbered_snaps 150 @ [[]]) = 151 \<and>
   undoStack (push_all (numbered_snaps 150 @ [[]]) init_editor) = numbered_snaps 150 \<and>
   numbered_snaps 150 \<noteq> tl (numbered_snaps 150 @ [[]])"
proof -
  let ?xs = "numbered_snaps 150"
  have b: "distinct (?xs @ [[]])" using numbered_snaps_facts [of 150] by simp
  have f: "undoStack (foldl (\<lambda>e s. pushUndo s e) init_editor ?xs) = ?xs"
    using pushUndo_fold [of ?xs init_editor] init_editor_stacks(1) numbered_snaps_facts [of 150]
    by (simp add: distinct_adj_conv_nth distinct_conv_nth)
  have g: "undoStack (push_all (?xs @ [[]]) init_editor) = ?xs"
    using f by (simp add: push_all_def pushUndo_def)
  have "length (tl (?xs @ [[]])) = 150" using numbered_snaps_facts(3) [of 150] by simp
  have h: "?xs ! 0 = [1]" by (simp add: numbered_snaps_def nth_append del: upt_Suc)
  have i: "tl (?xs @ [[]]) ! 0 = [2]"
    by (simp add: numbered_snaps_def nth_tl nth_append del: upt_Suc)
  have "?xs \<noteq> tl (?xs @ [[]])" using h i by (metis list.inject numeral_eq_one_iff semiring_norm(85))
  then show ?thesis using b g numbered_snaps_facts(3) [of 150] by simp
qed

lemma kind_name_not_ed: "kind_name k \<noteq> ''is-ed''" "''is-ed'' \<noteq> kind_name k"
  by (cases k; simp)+

lemma sync_text_makeLine: "sync_text tc [makeLine s] = s"
  by (simp add: sync_text_def sync_parts_def commit_node_def makeLine_def renderLine_def
      has_class_def kind_name_not_ed)

lemma retype_hist:
  "md (retype s ed) = s"
  "s \<noteq> md ed \<Longrightarrow> undoStack (retype s ed) = undoStack (pushUndo (md ed) ed)"
  "s \<noteq> md ed \<Longrightarrow> redoStack (retype s ed) = redoStack (pushUndo (md ed) ed)"
  by (simp_all add: retype_def sync_def sync_text_makeLine Let_def pushUndo_def)

lemma reachable_retype: "reachable no_text ed \<Longrightarrow> reachable no_text (retype s ed)"
  unfolding retype_def by (rule reachable.edit)

lemma reachable_init: "reachable no_text init_editor"
  by (rule reachable.start) (simp_all add: init_editor_stacks)

lemma two_edits_hist:
  "md two_edits = js ''b''" "undoStack two_edits = [js ''a'']" "redoStack two_edits = []"
  by (simp_all add: two_edits_def retype_hist init_editor_stacks pushUndo_def js_def)

lemma three_edits_hist:
  "md three_edits = js ''c''" "undoStack three_edits = [js ''a'', js ''b'']" "redoStack three_edits = []"
  by (simp_all add: three_edits_def retype_hist two_edits_hist pushUndo_def js_def)

lemma reachable_two_edits: "reachable no_text two_edits"
  unfolding two_edits_def by (intro reachable_retype reachable_init)

theorem redo_invalidation_witness:
  "reachable no_text two_edits \<and>
   sync_text no_text [makeLine (js ''c'')] \<noteq> md (undo two_edits) \<and>
   redoStack (undo two_edits) = [js ''b''] \<and>
   redoStack (sync no_text ((undo two_edits)\<lparr>live := [makeLine (js ''c'')]\<rparr>)) = []"
proof -
  have m: "md (undo two_edits) = js ''a''" and r: "redoStack (undo two_edits) = [js ''b'']"
    by (simp_all add: undo_def two_edits_hist)
  have n: "sync_text no_text [makeLine (js ''c'')] \<noteq> md (undo two_edits)"
    by (simp add: sync_text_makeLine m js_def)
  show ?thesis
    using redo_invalidation [OF reachable_two_edits n] reachable_two_edits n r by simp
qed

text \<open>
  C10, as amended. \<open>_pushUndo\<close> changes nothing, the redo stack included, when the
  state is empty or equal to the top of the undo stack. In every state that edits (each
  followed by \<open>_sync\<close>), undos and redos lead to from an empty history, the undo stack
  has no empty entry and no two equal neighbours, also after a further push, and an undo
  never restores the empty text.
\<close>

theorem undo_stack_entries:
  assumes "reachable tc ed"
  shows "(s = [] \<or> (undoStack ed \<noteq> [] \<and> s = last (undoStack ed)) \<longrightarrow> pushUndo s ed = ed) \<and>
     [] \<notin> set (undoStack (pushUndo s ed)) \<and> distinct_adj (undoStack (pushUndo s ed)) \<and>
     [] \<notin> set (undoStack ed) \<and> distinct_adj (undoStack ed) \<and>
     (undoStack ed \<noteq> [] \<longrightarrow> md (undo ed) \<noteq> [])"
proof -
  have h: "hist_inv ed" using assms by (rule reachable_hist_inv)
  then have u: "[] \<notin> set (undoStack ed)" "distinct_adj (undoStack ed)"
    by (simp_all add: hist_inv_def)
  have a: "s = [] \<or> (undoStack ed \<noteq> [] \<and> s = last (undoStack ed)) \<longrightarrow> pushUndo s ed = ed"
    by (simp add: pushUndo_def)
  have b: "[] \<notin> set (undoStack (pushUndo s ed)) \<and> distinct_adj (undoStack (pushUndo s ed))"
  proof (cases "s = [] \<or> (undoStack ed \<noteq> [] \<and> s = last (undoStack ed))")
    case True
    then show ?thesis using u by (simp add: pushUndo_def)
  next
    case False
    then have d: "distinct_adj (undoStack ed @ [s])" and e: "[] \<notin> set (undoStack ed @ [s])"
      using u by (auto simp: distinct_adj_append_iff)
    have "[] \<notin> set (tl (undoStack ed @ [s]))" using e by (metis list.set_sel(2) tl_Nil)
    then show ?thesis
      using False d e by (auto simp: pushUndo_def distinct_adj_tl simp del: tl_append2)
  qed
  have c: "undoStack ed \<noteq> [] \<longrightarrow> md (undo ed) \<noteq> []"
    using u(1) by (auto simp: undo_def) (metis last_in_set)
  show ?thesis using a b c u by blast
qed

theorem undo_stack_entries_witness:
  "reachable no_text two_edits \<and> undoStack two_edits \<noteq> [] \<and>
   pushUndo [] two_edits = two_edits \<and> pushUndo (js ''a'') two_edits = two_edits \<and>
   [] \<notin> set (undoStack two_edits) \<and> distinct_adj (undoStack two_edits) \<and>
   md (undo two_edits) \<noteq> []"
proof -
  have n: "undoStack two_edits \<noteq> []" and l: "js ''a'' = last (undoStack two_edits)"
    by (simp_all add: two_edits_hist)
  show ?thesis
    using undo_stack_entries [OF reachable_two_edits, of "[]"]
      undo_stack_entries [OF reachable_two_edits, of "js ''a''"] reachable_two_edits n l
    by blast
qed

text \<open>
  C10 as stated fails: \<open>_redo\<close> pushes the current text without the tests of
  \<open>_pushUndo\<close>. When the text was set without a snapshot in between (here by
  \<open>loadValue\<close>), a redo puts an empty entry, or an entry equal to its neighbour, on the
  undo stack, and the next undo restores the empty text.
\<close>

theorem undo_stack_entries_counterexample:
  "undoStack (redo (loadValue (\<lambda>v. v) [] (undo two_edits))) = [[]] \<and>
   md (undo (redo (loadValue (\<lambda>v. v) [] (undo two_edits)))) = [] \<and>
   undoStack (redo (loadValue (\<lambda>v. v) (js ''a'') (undo three_edits))) = [js ''a'', js ''a'']"
  by (simp add: redo_def undo_def loadValue_def two_edits_hist three_edits_hist replace_cr_def js_def)

section \<open>Properties of the structural parser and the canonical string\<close>

lemma split_lines_nonempty [simp]: "split_lines s \<noteq> []"
  by (induction s) auto

lemma split_lines_append: "split_lines (x @ 10 # y) = split_lines x @ split_lines y"
proof (induction x)
  case Nil
  then show ?case by simp
next
  case (Cons c x)
  then show ?case by (cases "split_lines x") auto
qed

lemma join_split: "join_lines (split_lines s) = s"
proof (induction s)
  case Nil
  then show ?case by simp
next
  case (Cons c cs)
  obtain h t where ht: "split_lines cs = h # t" by (cases "split_lines cs") auto
  show ?case
  proof (cases "c = 10")
    case True
    then show ?thesis using Cons ht by simp
  next
    case False
    then show ?thesis using Cons ht by (cases t) auto
  qed
qed

lemma split_lines_no_nl: "10 \<notin> set l \<Longrightarrow> split_lines l = [l]"
  by (induction l) auto

lemma split_lines_pieces: "l \<in> set (split_lines s) \<Longrightarrow> 10 \<notin> set l"
proof (induction s arbitrary: l)
  case Nil
  then show ?case by simp
next
  case (Cons c cs)
  obtain h t where ht: "split_lines cs = h # t" by (cases "split_lines cs") auto
  then have "10 \<notin> set h" "\<And>x. x \<in> set t \<Longrightarrow> 10 \<notin> set x" using Cons.IH by auto
  then show ?case using Cons.prems ht by (auto split: if_splits)
qed

lemma join_lines_append:
  "a \<noteq> [] \<Longrightarrow> b \<noteq> [] \<Longrightarrow> join_lines (a @ b) = join_lines a @ 10 # join_lines b"
proof (induction a rule: join_lines.induct)
  case 1
  then show ?case by simp
next
  case (2 x)
  then show ?case by (cases b) auto
next
  case (3 x y ys)
  then show ?case by simp
qed

lemma split_join: "p \<noteq> [] \<Longrightarrow> split_lines (join_lines p) = concat (map split_lines p)"
proof (induction p rule: join_lines.induct)
  case 1
  then show ?case by simp
next
  case (2 x)
  then show ?case by simp
next
  case (3 x y ys)
  then show ?case by (simp add: split_lines_append)
qed

lemma join_concat_split: "join_lines (concat (map split_lines p)) = join_lines p"
proof (induction p rule: join_lines.induct)
  case 1
  then show ?case by simp
next
  case (2 x)
  then show ?case by (simp add: join_split)
next
  case (3 x y ys)
  have "concat (map split_lines (y # ys)) \<noteq> []" by simp
  then have "join_lines (split_lines x @ concat (map split_lines (y # ys)))
      = join_lines (split_lines x) @ 10 # join_lines (concat (map split_lines (y # ys)))"
    by (intro join_lines_append) simp_all
  then show ?case using 3 by (simp add: join_split)
qed

lemma collect_code_closed:
  "list_all (\<lambda>l. \<not> fence_close l) inner \<Longrightarrow> fence_close closer \<Longrightarrow>
   collect_code (inner @ closer # rest) = (inner, rest)"
  by (induction inner) auto

lemma collect_code_open:
  "list_all (\<lambda>l. \<not> fence_close l) inner \<Longrightarrow> collect_code inner = (inner, [])"
  by (induction inner) auto

lemma fence_match_tail: "fence_match opener \<noteq> None \<Longrightarrow> snd (the (fence_match opener)) = fence_tail opener"
  by (cases opener) (auto simp: fence_match_def fence_tail_def split: if_splits)

lemma draw_loop_text: "list_all (\<lambda>l. fence_match l = None) ls \<Longrightarrow>
  draw_loop (ls @ rest) = map makeLine ls @ draw_loop rest"
  by (induction ls) auto

lemma draw_loop_fence:
  assumes "fence_match opener \<noteq> None" "list_all (\<lambda>l. \<not> fence_close l) inner" "fence_close closer"
  shows "draw_loop (opener # inner @ closer # rest)
     = makeCodeBlock (js_trim (fence_tail opener)) (join_lines inner) # draw_loop rest"
  using assms fence_match_tail [of opener] by (auto simp: collect_code_closed)

lemma fence_tail_rest: "\<not> list_ex is_line_end opener \<Longrightarrow> fence_tail opener = fence_rest opener"
  unfolding fence_tail_def fence_rest_def
  by (rule takeWhile_eq_all_conv [THEN iffD2]) (auto simp: list_ex_iff dest: set_dropWhileD)

lemma draw_loop_segs:
  "list_all seg_ok segs \<Longrightarrow> draw_loop (concat (map seg_lines segs) @ rest) = map seg_node segs @ draw_loop rest"
proof (induction segs)
  case Nil
  then show ?case by simp
next
  case (Cons g segs)
  show ?case
  proof (cases g)
    case (Text l)
    then show ?thesis using Cons by simp
  next
    case (Fence opener inner closer)
    then have a: "fence_match opener \<noteq> None" "list_all (\<lambda>l. \<not> fence_close l) inner" "fence_close closer"
      and b: "\<not> list_ex is_line_end opener"
      using Cons.prems by (auto simp: list_all_iff)
    have t: "fence_tail opener = fence_rest opener" using b by (rule fence_tail_rest)
    have "draw_loop (opener # inner @ closer # (concat (map seg_lines segs) @ rest))
      = makeCodeBlock (js_trim (fence_tail opener)) (join_lines inner) # draw_loop (concat (map seg_lines segs) @ rest)"
      using a by (rule draw_loop_fence)
    then show ?thesis using Cons Fence t by simp
  qed
qed

lemma draw_live: "live (draw ed) = draw_loop (split_lines (md ed))"
  by (simp add: draw_def fence_match_def)

lemma concat_split_singletons:
  "(\<And>l. l \<in> set xs \<Longrightarrow> 10 \<notin> set l) \<Longrightarrow> concat (map split_lines xs) = xs"
  by (induction xs) (simp_all add: split_lines_no_nl)

lemma concat_map_cong: "(\<And>x. x \<in> set xs \<Longrightarrow> f x = g x) \<Longrightarrow> concat (map f xs) = concat (map g xs)"
  by (induction xs) simp_all

lemma seg_lines_no_nl: "seg_ok g \<Longrightarrow> l \<in> set (seg_lines g) \<Longrightarrow> 10 \<notin> set l"
  by (cases g) (auto simp: list_all_iff list_ex_iff is_line_end_def)

lemma segs_split:
  "list_all seg_ok segs \<Longrightarrow> concat (map split_lines (concat (map seg_lines segs))) = concat (map seg_lines segs)"
  by (rule concat_split_singletons) (auto simp: list_all_iff dest: seg_lines_no_nl)

lemma seg_node_cb: "ds_cb (seg_node g) = is_fence g"
  by (cases g) (simp_all add: makeLine_def renderLine_def makeCodeBlock_def)

lemma block_of_made:
  "block_of (makeLine l) = TextLine l" "block_of (makeCodeBlock lang code) = CodeBlock lang code"
  by (simp_all add: block_of_def makeLine_def renderLine_def makeCodeBlock_def)

lemma block_of_seg_node: "block_of (seg_node g) = seg_block g"
  by (cases g) (simp_all add: block_of_made)

text \<open>
  C2, as amended. A canonical string made of text lines that open no fence and of N
  fenced groups (an opening fence line without a line terminator in it, interior lines
  of which none is a bare fence line, and a closing line that is a bare run of three or
  more backticks or of three or more tildes, whichever character opened the fence,
  followed by white space only) is drawn as one line element per text line and one code
  block per group, hence exactly N code blocks. The code that a block holds is its
  interior lines joined by line feeds, and its language is the trimmed trailing token of
  its opening line.
\<close>

theorem fence_balance:
  assumes "segs \<noteq> []" and "list_all seg_ok segs"
  shows "map block_of (live (draw (ed\<lparr>md := join_lines (concat (map seg_lines segs))\<rparr>)))
       = map seg_block segs \<and>
     length (filter ds_cb (live (draw (ed\<lparr>md := join_lines (concat (map seg_lines segs))\<rparr>))))
       = length (filter is_fence segs) \<and>
     live (draw (ed\<lparr>md := join_lines (concat (map seg_lines segs))\<rparr>)) = map seg_node segs"
proof -
  let ?L = "concat (map seg_lines segs)"
  have ne: "?L \<noteq> []" using assms(1) by (cases segs; cases "hd segs") auto
  have "split_lines (join_lines ?L) = concat (map split_lines ?L)" using ne by (rule split_join)
  also have "\<dots> = ?L" using assms(2) by (rule segs_split)
  finally have s: "split_lines (join_lines ?L) = ?L" .
  have d: "draw_loop ?L = map seg_node segs"
    using draw_loop_segs [OF assms(2), of "[]"] by simp
  have l: "live (draw (ed\<lparr>md := join_lines ?L\<rparr>)) = map seg_node segs"
    by (simp add: draw_live s d)
  have c: "length (filter ds_cb (map seg_node segs)) = length (filter is_fence segs)"
    by (simp add: filter_map comp_def seg_node_cb)
  have b: "map block_of (map seg_node segs) = map seg_block segs"
    by (simp add: block_of_seg_node)
  show ?thesis unfolding l using b c by simp
qed

lemma sync_parts_makeLine: "sync_parts (makeLine l) = [l]"
  by (simp add: sync_parts_def makeLine_def renderLine_def has_class_def)

lemma sync_parts_makeCodeBlock:
  "sync_parts (makeCodeBlock lang code) = (fence3 @ lang) # split_lines code @ [fence3]"
  by (simp add: sync_parts_def makeCodeBlock_def)

lemma commit_made:
  "commit_node tc (makeLine l) = makeLine l" "commit_node tc (makeCodeBlock lang code) = makeCodeBlock lang code"
  by (simp_all add: commit_node_def makeLine_def renderLine_def makeCodeBlock_def has_class_def kind_name_not_ed)

lemma commit_drawn: "n \<in> set (draw_loop ls) \<Longrightarrow> commit_node tc n = n"
  by (induction ls arbitrary: n rule: draw_loop.induct) (auto simp: commit_made split: option.splits)

lemma sync_text_drawn: "sync_text tc (draw_loop ls) = join_lines (concat (map sync_parts (draw_loop ls)))"
  unfolding sync_text_def
  by (rule arg_cong [where f = join_lines], rule concat_map_cong) (simp add: commit_drawn)

lemma fence_close_fence3: "fence_close fence3"
  by (simp add: fence_close_def bare_run_def fence3_def)

lemma lang_no_nl: "lang_ok lang \<Longrightarrow> 10 \<notin> set lang"
  by (auto simp: lang_ok_def list_ex_iff is_line_end_def)

lemma fence_opener:
  assumes "lang_ok lang"
  shows "fence_match (fence3 @ lang) \<noteq> None" and "js_trim (fence_tail (fence3 @ lang)) = lang"
proof -
  have h: "takeWhile (\<lambda>x. x = 96) lang = []" "dropWhile (\<lambda>x. x = 96) lang = lang"
    using assms by (cases lang; simp add: lang_ok_def)+
  have t: "takeWhile (\<lambda>x. \<not> is_line_end x) lang = lang"
    using assms by (auto simp: lang_ok_def list_ex_iff intro: takeWhile_eq_all_conv [THEN iffD2])
  show "fence_match (fence3 @ lang) \<noteq> None"
    by (simp add: fence_match_def fence3_def)
  have "fence_tail (fence3 @ lang) = lang"
    using h t by (simp add: fence_tail_def fence3_def)
  then show "js_trim (fence_tail (fence3 @ lang)) = lang"
    using assms by (simp add: lang_ok_def)
qed

lemma node_step:
  assumes "node_ok tc n"
  shows "concat (map sync_parts (draw_loop (lines_of tc n @ rest)))
     = lines_of tc n @ concat (map sync_parts (draw_loop rest))"
proof (cases "ds_cb n")
  case True
  then have c: "commit_node tc n = n" by (simp add: commit_node_def)
  from True assms have lo: "lang_ok (ds_lang n)"
    and inner: "list_all (\<lambda>l. \<not> fence_close l) (split_lines (ds_code n))"
    by (simp_all add: node_ok_def)
  have "split_lines (fence3 @ ds_lang n) = [fence3 @ ds_lang n]"
    using lang_no_nl [OF lo] by (intro split_lines_no_nl) (simp add: fence3_def)
  moreover have "concat (map split_lines (split_lines (ds_code n))) = split_lines (ds_code n)"
    by (rule concat_split_singletons) (rule split_lines_pieces)
  moreover have "split_lines fence3 = [fence3]" by (simp add: fence3_def)
  ultimately have l: "lines_of tc n = (fence3 @ ds_lang n) # split_lines (ds_code n) @ [fence3]"
    using True by (simp add: lines_of_def c sync_parts_def)
  have "draw_loop ((fence3 @ ds_lang n) # split_lines (ds_code n) @ fence3 # rest)
     = makeCodeBlock (js_trim (fence_tail (fence3 @ ds_lang n))) (join_lines (split_lines (ds_code n)))
         # draw_loop rest"
    using fence_opener(1) [OF lo] inner fence_close_fence3 by (rule draw_loop_fence)
  then have "draw_loop (lines_of tc n @ rest) = makeCodeBlock (ds_lang n) (ds_code n) # draw_loop rest"
    by (simp add: l fence_opener(2) [OF lo] join_split)
  then show ?thesis by (simp add: sync_parts_makeCodeBlock l)
next
  case False
  with assms have a: "list_all (\<lambda>l. fence_match l = None) (lines_of tc n)"
    by (simp add: node_ok_def lines_of_def)
  have "concat (map sync_parts (map makeLine ls)) = ls" for ls
    by (induction ls) (simp_all add: sync_parts_makeLine)
  then show ?thesis using draw_loop_text [OF a, of rest] by simp
qed

lemma nodes_step:
  "list_all (node_ok tc) ns \<Longrightarrow>
   concat (map sync_parts (draw_loop (concat (map (lines_of tc) ns) @ rest)))
     = concat (map (lines_of tc) ns) @ concat (map sync_parts (draw_loop rest))"
proof (induction ns)
  case Nil
  then show ?case by simp
next
  case (Cons n ns)
  then have "node_ok tc n" by simp
  from node_step [OF this, of "concat (map (lines_of tc) ns) @ rest"] Cons show ?case by simp
qed

text \<open>
  C1, as amended. When no line of a text line's raw text opens a fence, and every code
  block has a language without line terminators, without white space at either end and
  without a leading backtick, and code of which no line is a bare fence line, then
  serialising the children of the live area, drawing the string and serialising again
  gives the same string.
\<close>

theorem round_trip:
  assumes "list_all (node_ok tc) ns"
  shows "sync_text tc (live (draw (ed\<lparr>md := sync_text tc ns\<rparr>))) = sync_text tc ns"
proof -
  let ?P = "concat (map (\<lambda>n. sync_parts (commit_node tc n)) ns)"
  have s: "sync_text tc ns = join_lines ?P" by (simp add: sync_text_def)
  have n: "concat (map split_lines ?P) = concat (map (lines_of tc) ns)"
    by (induction ns) (simp_all add: lines_of_def)
  show ?thesis
  proof (cases "?P = []")
    case True
    have "sync_text tc ns = []" unfolding s True by simp
    then show ?thesis
      by (simp add: draw_live fence_match_def sync_text_makeLine)
  next
    case False
    then have "split_lines (join_lines ?P) = concat (map (lines_of tc) ns)"
      using split_join [of ?P] n by simp
    then have "sync_text tc (live (draw (ed\<lparr>md := sync_text tc ns\<rparr>)))
       = join_lines (concat (map sync_parts (draw_loop (concat (map (lines_of tc) ns) @ []))))"
      by (simp add: draw_live sync_text_drawn s)
    also have "\<dots> = join_lines (concat (map (lines_of tc) ns))"
      using nodes_step [OF assms, of "[]"] by simp
    also have "\<dots> = join_lines ?P" using join_concat_split [of ?P] n by simp
    finally show ?thesis using s by simp
  qed
qed

lemmas eval_defs = js_def fence_match_def fence_close_def bare_run_def js_trim_def
  is_space_def is_line_end_def fence3_def

lemma made_fields:
  "ds_cb (makeLine l) = False" "ds_cb (makeCodeBlock lang code) = True"
  "ds_lang (makeCodeBlock lang code) = lang" "ds_code (makeCodeBlock lang code) = code"
  by (simp_all add: makeLine_def renderLine_def makeCodeBlock_def)

theorem round_trip_witness:
  "list_all (node_ok no_text) example_nodes \<and>
   sync_text no_text example_nodes = js ''Before\<newline>```go\<newline>fmt.Println(1)\<newline>```\<newline>After'' \<and>
   sync_text no_text (live (draw (init_editor\<lparr>md := sync_text no_text example_nodes\<rparr>)))
     = sync_text no_text example_nodes"
proof -
  have a: "list_all (node_ok no_text) example_nodes"
    by (simp add: example_nodes_def node_ok_def lang_ok_def sync_parts_makeLine commit_made
        made_fields eval_defs)
  have b: "sync_text no_text example_nodes = js ''Before\<newline>```go\<newline>fmt.Println(1)\<newline>```\<newline>After''"
    by (simp add: example_nodes_def sync_text_def commit_made sync_parts_makeLine
        sync_parts_makeCodeBlock eval_defs)
  show ?thesis using round_trip [OF a, of init_editor] a b by blast
qed

text \<open>
  C1 as stated fails: a text line holding three backticks serialises to a string that
  is drawn as an unterminated, empty code block, which serialises to an opening fence,
  an empty line and a closing fence. A code block whose language ends in a space comes
  back with the language trimmed, and one whose code is a bare fence line comes back as
  two code blocks.
\<close>

theorem round_trip_counterexample:
  "sync_text no_text [makeLine (js ''```'')] = js ''```'' \<and>
   live (draw (init_editor\<lparr>md := js ''```''\<rparr>)) = [makeCodeBlock [] []] \<and>
   sync_text no_text [makeCodeBlock [] []] = js ''```\<newline>\<newline>```'' \<and>
   sync_text no_text (live (draw (init_editor\<lparr>md := sync_text no_text [makeLine (js ''```'')]\<rparr>)))
     \<noteq> sync_text no_text [makeLine (js ''```'')] \<and>
   sync_text no_text (live (draw (init_editor\<lparr>md :=
       sync_text no_text [makeCodeBlock (js ''go '') (js ''x'')]\<rparr>)))
     \<noteq> sync_text no_text [makeCodeBlock (js ''go '') (js ''x'')] \<and>
   sync_text no_text (live (draw (init_editor\<lparr>md :=
       sync_text no_text [makeCodeBlock [] (js ''```'')]\<rparr>)))
     \<noteq> sync_text no_text [makeCodeBlock [] (js ''```'')]"
proof -
  have a: "sync_text no_text [makeLine (js ''```'')] = js ''```''" by (rule sync_text_makeLine)
  have b: "live (draw (init_editor\<lparr>md := js ''```''\<rparr>)) = [makeCodeBlock [] []]"
    by (simp add: draw_live eval_defs)
  have c: "sync_text no_text [makeCodeBlock [] []] = js ''```\<newline>\<newline>```''"
    by (simp add: sync_text_def commit_made sync_parts_makeCodeBlock eval_defs)
  have d: "js ''```\<newline>\<newline>```'' \<noteq> js ''```''" by (simp add: js_def)
  have e: "sync_text no_text [makeCodeBlock (js ''go '') (js ''x'')] = js ''```go \<newline>x\<newline>```''"
    by (simp add: sync_text_def commit_made sync_parts_makeCodeBlock eval_defs)
  have f: "live (draw (init_editor\<lparr>md := js ''```go \<newline>x\<newline>```''\<rparr>))
      = [makeCodeBlock (js ''go'') (js ''x'')]"
    by (simp add: draw_live eval_defs)
  have g: "sync_text no_text [makeCodeBlock (js ''go'') (js ''x'')] = js ''```go\<newline>x\<newline>```''"
    by (simp add: sync_text_def commit_made sync_parts_makeCodeBlock eval_defs)
  have h: "js ''```go\<newline>x\<newline>```'' \<noteq> js ''```go \<newline>x\<newline>```''" by (simp add: js_def)
  have i: "sync_text no_text [makeCodeBlock [] (js ''```'')] = js ''```\<newline>```\<newline>```''"
    by (simp add: sync_text_def commit_made sync_parts_makeCodeBlock eval_defs)
  have j: "live (draw (init_editor\<lparr>md := js ''```\<newline>```\<newline>```''\<rparr>))
      = [makeCodeBlock [] [], makeCodeBlock [] []]"
    by (simp add: draw_live eval_defs)
  have k: "sync_text no_text [makeCodeBlock [] [], makeCodeBlock [] []]
      = js ''```\<newline>\<newline>```\<newline>```\<newline>\<newline>```''"
    by (simp add: sync_text_def commit_made sync_parts_makeCodeBlock eval_defs)
  have l: "js ''```\<newline>\<newline>```\<newline>```\<newline>\<newline>```'' \<noteq> js ''```\<newline>```\<newline>```''"
    by (simp add: js_def)
  show ?thesis
    unfolding a b c e f g i j k using d h l by simp
qed

theorem fence_balance_witness:
  "example_segs \<noteq> [] \<and> list_all seg_ok example_segs \<and>
   join_lines (concat (map seg_lines example_segs)) = js ''``` py \<newline>a\<newline>~~~ \<newline>b'' \<and>
   map block_of (live (draw (init_editor\<lparr>md := join_lines (concat (map seg_lines example_segs))\<rparr>)))
     = [CodeBlock (js ''py'') (js ''a''), TextLine (js ''b'')] \<and>
   length (filter ds_cb
     (live (draw (init_editor\<lparr>md := join_lines (concat (map seg_lines example_segs))\<rparr>)))) = 1"
proof -
  have a: "example_segs \<noteq> []" by (simp add: example_segs_def)
  have b: "list_all seg_ok example_segs"
    by (simp add: example_segs_def eval_defs)
  have c: "join_lines (concat (map seg_lines example_segs)) = js ''``` py \<newline>a\<newline>~~~ \<newline>b''"
    by (simp add: example_segs_def js_def)
  have d: "map seg_block example_segs = [CodeBlock (js ''py'') (js ''a''), TextLine (js ''b'')]"
    by (simp add: example_segs_def fence_rest_def eval_defs)
  have e: "length (filter is_fence example_segs) = 1" by (simp add: example_segs_def)
  note t = fence_balance [OF a b, of init_editor]
  from t have "map block_of (live (draw (init_editor\<lparr>md := join_lines (concat (map seg_lines example_segs))\<rparr>)))
      = map seg_block example_segs"
    by blast
  then have f: "map block_of (live (draw (init_editor\<lparr>md := join_lines (concat (map seg_lines example_segs))\<rparr>)))
      = [CodeBlock (js ''py'') (js ''a''), TextLine (js ''b'')]"
    unfolding d .
  from t have "length (filter ds_cb
      (live (draw (init_editor\<lparr>md := join_lines (concat (map seg_lines example_segs))\<rparr>))))
      = length (filter is_fence example_segs)"
    by blast
  then have g: "length (filter ds_cb
      (live (draw (init_editor\<lparr>md := join_lines (concat (map seg_lines example_segs))\<rparr>)))) = 1"
    unfolding e .
  show ?thesis using a b c f g by blast
qed

text \<open>
  C2 as stated fails: a line of tildes closes a fence that backticks opened. In the
  example the specification's reading (\<open>parse_same_char\<close>) finds one fence pair and
  one code block holding three lines; \<open>_draw\<close> makes two code blocks, the first
  holding one line and the second none.
\<close>

theorem fence_balance_counterexample:
  "map block_of (live (draw (init_editor\<lparr>md := js ''```py\<newline>a\<newline>~~~\<newline>b\<newline>```''\<rparr>)))
     = [CodeBlock (js ''py'') (js ''a''), TextLine (js ''b''), CodeBlock [] []] \<and>
   map block_of (parse_same_char (split_lines (js ''```py\<newline>a\<newline>~~~\<newline>b\<newline>```'')))
     = [CodeBlock (js ''py'') (js ''a\<newline>~~~\<newline>b'')] \<and>
   length (filter ds_cb (live (draw (init_editor\<lparr>md := js ''```py\<newline>a\<newline>~~~\<newline>b\<newline>```''\<rparr>)))) \<noteq> 1"
proof -
  have l: "live (draw (init_editor\<lparr>md := js ''```py\<newline>a\<newline>~~~\<newline>b\<newline>```''\<rparr>))
      = [makeCodeBlock (js ''py'') (js ''a''), makeLine (js ''b''), makeCodeBlock [] []]"
    by (simp add: draw_live eval_defs)
  have p: "parse_same_char (split_lines (js ''```py\<newline>a\<newline>~~~\<newline>b\<newline>```''))
      = [makeCodeBlock (js ''py'') (js ''a\<newline>~~~\<newline>b'')]"
    by (simp add: eval_defs)
  show ?thesis unfolding l p by (simp add: block_of_made made_fields)
qed

section \<open>Properties of loading\<close>

lemma isHtml_iff: "isHtml v \<longleftrightarrow> (\<exists>p l q r. is_letter l \<and> v = p @ 60 # l # q @ 62 # r)"
proof
  show "isHtml v \<Longrightarrow> \<exists>p l q r. is_letter l \<and> v = p @ 60 # l # q @ 62 # r"
  proof (induction v)
    case Nil
    then show ?case by simp
  next
    case (Cons c cs)
    show ?case
    proof (cases "isHtml cs")
      case True
      with Cons.IH obtain p l q r where "is_letter l" "cs = p @ 60 # l # q @ 62 # r" by blast
      then have "is_letter l \<and> c # cs = (c # p) @ 60 # l # q @ 62 # r" by simp
      then show ?thesis by blast
    next
      case False
      with Cons.prems obtain d ds where c: "c = 60" and cs: "cs = d # ds"
        and d: "is_letter d" and m: "62 \<in> set ds"
        by (auto split: list.splits)
      from m obtain q r where "ds = q @ 62 # r" by (auto dest: split_list)
      with c cs d have "is_letter d \<and> c # cs = [] @ 60 # d # q @ 62 # r" by simp
      then show ?thesis by blast
    qed
  qed
next
  assume "\<exists>p l q r. is_letter l \<and> v = p @ 60 # l # q @ 62 # r"
  then obtain p l q r where l: "is_letter l" and v: "v = p @ 60 # l # q @ 62 # r" by blast
  have "isHtml (p @ 60 # l # q @ 62 # r)"
    using l by (induction p) simp_all
  with v show "isHtml v" by simp
qed

lemma replace_cr_no_cr: "13 \<notin> set (replace_cr s)"
  by (auto simp: replace_cr_def)

lemma replace_crlf_id: "13 \<notin> set s \<Longrightarrow> replace_crlf s = s"
  by (induction s rule: replace_crlf.induct) auto

lemma replace_cr_id: "13 \<notin> set s \<Longrightarrow> replace_cr s = s"
  by (auto simp: replace_cr_def intro: map_idI)

lemma split_endings_nonempty [simp]: "split_endings s \<noteq> []"
  by (induction s rule: split_endings.induct) auto

lemma join_lines_nil_Cons: "xs \<noteq> [] \<Longrightarrow> join_lines ([] # xs) = 10 # join_lines xs"
  by (cases xs) simp_all

lemma join_lines_hd_Cons: "xs \<noteq> [] \<Longrightarrow> join_lines ((c # hd xs) # tl xs) = c # join_lines xs"
  by (cases xs rule: join_lines.cases) simp_all

lemma replace_crlf_other: "c \<noteq> 13 \<Longrightarrow> replace_crlf (c # cs) = c # replace_crlf cs"
  by (cases cs) simp_all

lemma normalise_lines: "replace_cr (replace_crlf s) = join_lines (split_endings s)"
proof (induction s rule: split_endings.induct)
  case 1
  then show ?case by (simp add: replace_cr_def)
next
  case (2 c d cs)
  then show ?case
    by (auto simp: replace_cr_def join_lines_nil_Cons join_lines_hd_Cons simp del: split_endings.simps(2))
       (simp_all add: replace_cr_def join_lines_nil_Cons join_lines_hd_Cons)
next
  case (3 c)
  then show ?case by (simp add: replace_cr_def)
qed

lemma split_endings_pieces: "l \<in> set (split_endings s) \<Longrightarrow> 10 \<notin> set l \<and> 13 \<notin> set l"
proof (induction s arbitrary: l rule: split_endings.induct)
  case 1
  then show ?case by simp
next
  case (2 c d cs)
  show ?case
  proof (cases "c = 13 \<and> d = 10")
    case True
    then show ?thesis using "2.IH"(1) "2.prems" by auto
  next
    case False
    show ?thesis
    proof (cases "c = 13 \<or> c = 10")
      case True
      then show ?thesis using "2.IH"(2) "2.prems" False by auto
    next
      case nb: False
      obtain h t where ht: "split_endings (d # cs) = h # t"
        by (cases "split_endings (d # cs)") (use split_endings_nonempty in blast)+
      have "\<And>x. x \<in> set (h # t) \<Longrightarrow> 10 \<notin> set x \<and> 13 \<notin> set x"
        using "2.IH"(3) [OF False nb] ht by simp
      then show ?thesis using "2.prems" False nb ht by auto
    qed
  qed
next
  case (3 c)
  then show ?case by (auto split: if_splits)
qed

lemma split_lines_normalised: "split_lines (join_lines (split_endings s)) = split_endings s"
proof -
  have "split_lines (join_lines (split_endings s)) = concat (map split_lines (split_endings s))"
    by (rule split_join) simp
  also have "\<dots> = split_endings s"
    by (rule concat_split_singletons) (simp add: split_endings_pieces)
  finally show ?thesis .
qed

text \<open>
  C3, as amended. \<open>loadValue\<close> takes its argument for rich markup exactly when a \<open><\<close>
  is followed by a letter and later by a \<open>>\<close>, and then loads its conversion. The new
  text is the lines of the loaded text, where a line ends at a CR LF pair, at a CR or at
  a LF, joined by single line feeds: its lines are those lines, no CR is left, and a text
  without CR and without tags is taken as it is. The live area is redrawn from the lines
  of the new text. The undo and the redo stack stay as they were.
\<close>

theorem loadValue_effect:
  "(isHtml v \<longleftrightarrow> (\<exists>p l q r. is_letter l \<and> v = p @ 60 # l # q @ 62 # r)) \<and>
   (isHtml v \<longrightarrow> md (loadValue h2m v ed) = join_lines (split_endings (h2m v))) \<and>
   (\<not> isHtml v \<longrightarrow> md (loadValue h2m v ed) = join_lines (split_endings v)) \<and>
   (isHtml v \<longrightarrow> split_lines (md (loadValue h2m v ed)) = split_endings (h2m v)) \<and>
   (\<not> isHtml v \<longrightarrow> split_lines (md (loadValue h2m v ed)) = split_endings v) \<and>
   13 \<notin> set (md (loadValue h2m v ed)) \<and>
   (13 \<notin> set v \<and> \<not> isHtml v \<longrightarrow> md (loadValue h2m v ed) = v) \<and>
   live (loadValue h2m v ed) = draw_loop (split_lines (md (loadValue h2m v ed))) \<and>
   undoStack (loadValue h2m v ed) = undoStack ed \<and>
   redoStack (loadValue h2m v ed) = redoStack ed"
proof -
  have e: "isHtml v \<Longrightarrow> v \<noteq> []" by auto
  have h: "isHtml v \<longrightarrow> md (loadValue h2m v ed) = join_lines (split_endings (h2m v))"
    using e by (auto simp: loadValue_def normalise_lines)
  have t: "\<not> isHtml v \<longrightarrow> md (loadValue h2m v ed) = join_lines (split_endings v)"
    by (auto simp: loadValue_def normalise_lines)
  have hs: "isHtml v \<longrightarrow> split_lines (md (loadValue h2m v ed)) = split_endings (h2m v)"
    using h by (simp add: split_lines_normalised)
  have ts: "\<not> isHtml v \<longrightarrow> split_lines (md (loadValue h2m v ed)) = split_endings v"
    using t by (simp add: split_lines_normalised)
  have n: "13 \<notin> set (md (loadValue h2m v ed))"
    by (simp add: loadValue_def replace_cr_no_cr)
  have i: "13 \<notin> set v \<and> \<not> isHtml v \<longrightarrow> md (loadValue h2m v ed) = v"
    by (auto simp: loadValue_def replace_crlf_id replace_cr_id)
  have l: "live (loadValue h2m v ed) = draw_loop (split_lines (md (loadValue h2m v ed)))"
    by (simp add: loadValue_def draw_live)
  have s: "undoStack (loadValue h2m v ed) = undoStack ed" "redoStack (loadValue h2m v ed) = redoStack ed"
    by (simp_all add: loadValue_def)
  show ?thesis using isHtml_iff [of v] h t hs ts n i l s by blast
qed

lemma crlf_example_facts:
  "\<not> isHtml crlf_example" "split_endings crlf_example = [js ''a'', js ''b'', js ''c'']"
  by (simp_all add: crlf_example_def js_def)

lemma tagged_example_facts:
  "isHtml tagged_example" "split_endings (js ''x'' @ [13, 10]) = [js ''x'', []]"
  by (simp_all add: tagged_example_def js_def is_letter_def)

theorem loadValue_effect_witness:
  "\<not> isHtml crlf_example \<and>
   md (loadValue (\<lambda>v. v) crlf_example two_edits) = js ''a\<newline>b\<newline>c'' \<and>
   map block_of (live (loadValue (\<lambda>v. v) crlf_example two_edits))
     = [TextLine (js ''a''), TextLine (js ''b''), TextLine (js ''c'')] \<and>
   undoStack (loadValue (\<lambda>v. v) crlf_example two_edits) = [js ''a''] \<and>
   isHtml tagged_example \<and>
   md (loadValue (\<lambda>v. js ''x'' @ [13, 10]) tagged_example two_edits) = js ''x\<newline>'' \<and>
   13 \<notin> set (js ''a\<newline>b'') \<and> \<not> isHtml (js ''a\<newline>b'') \<and>
   md (loadValue (\<lambda>v. v) (js ''a\<newline>b'') two_edits) = js ''a\<newline>b''"
proof -
  note t1 = loadValue_effect [of crlf_example "\<lambda>v. v" two_edits]
  from t1 crlf_example_facts(1)
  have "md (loadValue (\<lambda>v. v) crlf_example two_edits) = join_lines (split_endings crlf_example)"
    by blast
  then have m1: "md (loadValue (\<lambda>v. v) crlf_example two_edits) = js ''a\<newline>b\<newline>c''"
    unfolding crlf_example_facts(2) by (simp add: js_def)
  from t1 crlf_example_facts(1)
  have "split_lines (md (loadValue (\<lambda>v. v) crlf_example two_edits)) = split_endings crlf_example"
    by blast
  then have s1: "split_lines (md (loadValue (\<lambda>v. v) crlf_example two_edits)) = [js ''a'', js ''b'', js ''c'']"
    unfolding crlf_example_facts(2) .
  from t1 have "live (loadValue (\<lambda>v. v) crlf_example two_edits)
      = draw_loop (split_lines (md (loadValue (\<lambda>v. v) crlf_example two_edits)))"
    by blast
  then have "live (loadValue (\<lambda>v. v) crlf_example two_edits) = draw_loop [js ''a'', js ''b'', js ''c'']"
    unfolding s1 .
  then have l1: "map block_of (live (loadValue (\<lambda>v. v) crlf_example two_edits))
      = [TextLine (js ''a''), TextLine (js ''b''), TextLine (js ''c'')]"
    by (simp add: js_def fence_match_def block_of_made)
  from t1 have "undoStack (loadValue (\<lambda>v. v) crlf_example two_edits) = undoStack two_edits"
    by blast
  then have u1: "undoStack (loadValue (\<lambda>v. v) crlf_example two_edits) = [js ''a'']"
    unfolding two_edits_hist(2) .
  note t2 = loadValue_effect [of tagged_example "\<lambda>v. js ''x'' @ [13, 10]" two_edits]
  from t2 tagged_example_facts(1)
  have "md (loadValue (\<lambda>v. js ''x'' @ [13, 10]) tagged_example two_edits)
      = join_lines (split_endings (js ''x'' @ [13, 10]))"
    by blast
  then have m2: "md (loadValue (\<lambda>v. js ''x'' @ [13, 10]) tagged_example two_edits) = js ''x\<newline>''"
    unfolding tagged_example_facts(2) by (simp add: js_def)
  have a: "13 \<notin> set (js ''a\<newline>b'')" "\<not> isHtml (js ''a\<newline>b'')"
    by (simp_all add: js_def)
  note t3 = loadValue_effect [of "js ''a\<newline>b''" "\<lambda>v. v" two_edits]
  from t3 a have m3: "md (loadValue (\<lambda>v. v) (js ''a\<newline>b'') two_edits) = js ''a\<newline>b''"
    by blast
  show ?thesis using crlf_example_facts(1) tagged_example_facts(1) m1 l1 u1 m2 a m3 by blast
qed

text \<open>
  C3 as stated fails: after \<open>loadValue\<close> the undo stack, and after an undo the redo
  stack, is as full as before.
\<close>

theorem loadValue_effect_counterexample:
  "undoStack (loadValue (\<lambda>v. v) (js ''x'') two_edits) \<noteq> [] \<and>
   redoStack (loadValue (\<lambda>v. v) (js ''x'') (undo two_edits)) \<noteq> []"
  by (simp add: loadValue_def undo_def two_edits_hist)

section \<open>Properties of the classifier\<close>

lemma starts_with_iff: "starts_with p s \<longleftrightarrow> (\<exists>r. s = p @ r)"
proof
  assume "starts_with p s"
  then have "s = p @ drop (length p) s"
    unfolding starts_with_def by (metis append_take_drop_id)
  then show "\<exists>r. s = p @ r" ..
next
  assume "\<exists>r. s = p @ r"
  then show "starts_with p s" by (auto simp: starts_with_def)
qed

lemma re_heading_iff: "re_heading n t \<longleftrightarrow> is_heading n t"
  by (simp add: re_heading_def is_heading_def starts_with_iff)

lemma takeWhile_is_replicate: "takeWhile (\<lambda>x. x = c) s = replicate (length (takeWhile (\<lambda>x. x = c) s)) c"
  by (induction s) auto

lemma bare_run_iff:
  "bare_run c t \<longleftrightarrow> (\<exists>n ws. 3 \<le> n \<and> t = replicate n c @ ws \<and> (\<forall>x \<in> set ws. is_space x))"
proof
  assume b: "bare_run c t"
  let ?n = "length (takeWhile (\<lambda>x. x = c) t)"
  have "t = replicate ?n c @ dropWhile (\<lambda>x. x = c) t"
    using takeWhile_is_replicate [of c t] takeWhile_dropWhile_id [of "\<lambda>x. x = c" t] by simp
  with b have "3 \<le> ?n \<and> t = replicate ?n c @ dropWhile (\<lambda>x. x = c) t
      \<and> (\<forall>x \<in> set (dropWhile (\<lambda>x. x = c) t). is_space x)"
    by (simp add: bare_run_def list_all_iff)
  then show "\<exists>n ws. 3 \<le> n \<and> t = replicate n c @ ws \<and> (\<forall>x \<in> set ws. is_space x)" by blast
next
  assume "\<exists>n ws. 3 \<le> n \<and> t = replicate n c @ ws \<and> (\<forall>x \<in> set ws. is_space x)"
  then obtain n ws where n: "3 \<le> n" and t: "t = replicate n c @ ws" and ws: "\<forall>x \<in> set ws. is_space x"
    by blast
  have tw: "takeWhile (\<lambda>x. x = c) t = replicate n c @ takeWhile (\<lambda>x. x = c) ws"
    unfolding t by (induction n) simp_all
  have dw: "dropWhile (\<lambda>x. x = c) t = dropWhile (\<lambda>x. x = c) ws"
    unfolding t by (induction n) simp_all
  have "\<forall>x \<in> set (dropWhile (\<lambda>x. x = c) ws). is_space x"
    using ws by (meson set_dropWhileD)
  then show "bare_run c t" using n by (simp add: bare_run_def tw dw list_all_iff)
qed

lemma re_rule_iff: "re_rule t \<longleftrightarrow> is_rule t"
  unfolding re_rule_def is_rule_def bare_run_iff by blast

lemma re_quote_iff: "re_quote t \<longleftrightarrow> is_quote t"
  by (simp add: re_quote_def is_quote_def starts_with_iff)

lemma re_bullet_iff: "re_bullet t \<longleftrightarrow> is_bullet t"
  by (cases t rule: re_bullet.cases) (auto simp: is_bullet_def)

lemma re_numbered_iff: "re_numbered t \<longleftrightarrow> is_numbered t"
proof
  assume r: "re_numbered t"
  let ?ds = "takeWhile is_digit t"
  from r obtain q where q: "dropWhile is_digit t = [46, 32] @ q"
    by (auto simp: re_numbered_def starts_with_iff)
  have "t = ?ds @ 46 # 32 # q" using takeWhile_dropWhile_id [of is_digit t] q by simp
  moreover have "\<forall>d \<in> set ?ds. is_digit d" by (meson set_takeWhileD)
  ultimately show "is_numbered t" using r unfolding is_numbered_def re_numbered_def by blast
next
  assume "is_numbered t"
  then obtain ds r where ds: "ds \<noteq> []" "\<forall>d \<in> set ds. is_digit d" and t: "t = ds @ 46 # 32 # r"
    unfolding is_numbered_def by blast
  have nd: "\<not> is_digit 46" by (simp add: is_digit_def)
  have "takeWhile is_digit t = ds" "dropWhile is_digit t = 46 # 32 # r"
    unfolding t using ds(2) nd by (simp_all add: takeWhile_append2 dropWhile_append2)
  then show "re_numbered t" using ds(1) by (simp add: re_numbered_def starts_with_def)
qed

lemma js_trim_empty_iff: "js_trim t = [] \<longleftrightarrow> is_blank t"
proof
  assume "js_trim t = []"
  then have "\<forall>x \<in> set (dropWhile is_space t). is_space x"
    by (simp add: js_trim_def dropWhile_eq_Nil_conv)
  then have "dropWhile is_space t = []"
    by (metis hd_dropWhile list.set_sel(1))
  then show "is_blank t" by (simp add: is_blank_def dropWhile_eq_Nil_conv)
next
  assume "is_blank t"
  then have "dropWhile is_space t = []" by (simp add: is_blank_def dropWhile_eq_Nil_conv)
  then show "js_trim t = []" unfolding js_trim_def by (simp only: rev.simps dropWhile.simps)
qed

text \<open>
  C9. \<open>lineType\<close> is a function of the line alone, and for every string its result is
  the kind of the first pattern that the line matches in the order heading 6 down to
  heading 1, rule, blockquote, bullet item, numbered item, empty; a line that matches
  none is a paragraph. The patterns are stated here as the shapes of strings that they
  describe.
\<close>

theorem classifier_precedence: "lineType t = first_match precedence P t"
  by (simp add: lineType_def precedence_def re_heading_iff re_rule_iff re_quote_iff
      re_bullet_iff re_numbered_iff js_trim_empty_iff)

lemma re_heading_step:
  "re_heading n [] = False"
  "re_heading n (c # r) = (if n = 0 then c = 32 else c = 35 \<and> re_heading (n - 1) r)"
  by (cases n; auto simp: re_heading_def starts_with_def)+

theorem classifier_precedence_witness:
  "lineType (js ''# Title'') = H1 \<and> first_match precedence P (js ''# Title'') = H1 \<and>
   lineType [] = Empty \<and> first_match precedence P [] = Empty \<and>
   lineType (js ''Some *text*.'') = P \<and> first_match precedence P (js ''Some *text*.'') = P"
proof -
  have a: "lineType (js ''# Title'') = H1" "lineType [] = Empty" "lineType (js ''Some *text*.'') = P"
    by (simp_all add: lineType_def re_heading_step re_rule_def re_quote_def re_numbered_def
        starts_with_def bare_run_def js_trim_def is_space_def is_digit_def js_def)
  show ?thesis
    using a classifier_precedence [of "js ''# Title''"] classifier_precedence [of "[]"]
      classifier_precedence [of "js ''Some *text*.''"]
    by simp
qed

section \<open>Behaviour of the inline renderer and of focus changes\<close>

text \<open>
  C6. The substitutions run in the stated order on the whole string, and the output of
  the code span substitution is not protected from the later ones: a line that is one
  code span holding \<open>a*b*c\<close> is rendered with \<open>b\<close> emphasised inside the
  code span. The asterisks inside the code span are treated as emphasis markers.
\<close>

theorem code_span_emphasis:
  \<open>inlineRender (js ''`a*b*c`'') = js ''<span class="ic">a<em>b</em>c</span>''\<close>
  by (simp add: inlineRender_def esc_def replace_char_def m_span_def m_wrap_def m_image_def
      m_link_def starts_with_def js_def is_line_end_def)

lemmas dom_defs = onClick_def focusLine_def blurLine_def keyBackspace_def handleBackspace_def
  prevLine_def remove_at_def is_ed_line_def has_class_def editLine_def makeLine_def
  renderLine_def makeCodeBlock_def

lemma kind_name_not_cb: "kind_name k \<noteq> ''cb''" "''cb'' \<noteq> kind_name k"
  by (cases k; simp)+

lemma code_then_lines_state:
  "code_then_lines =
     \<lparr>live = [makeCodeBlock [] (js ''x''), makeLine [], makeLine (js ''b''), makeLine (js ''c'')],
      md = js ''```\<newline>x\<newline>```\<newline>\<newline>b\<newline>c'', undoStack = [], redoStack = []\<rparr>"
  by (simp add: code_then_lines_def loadValue_def init_editor_def draw_def replace_cr_def js_def
      fence_match_def fence_close_def bare_run_def js_trim_def is_line_end_def is_space_def)

lemma after_click_empty:
  "onClick tc (Some 1) code_then_lines =
     \<lparr>live = [makeCodeBlock [] (js ''x''), editLine (makeLine []) [], makeLine (js ''b''),
              makeLine (js ''c'')],
      md = js ''```\<newline>x\<newline>```\<newline>\<newline>b\<newline>c'', undoStack = [], redoStack = []\<rparr>"
  unfolding code_then_lines_state
  by (simp add: dom_defs kind_name_not_ed kind_name_not_cb)

lemma after_backspace:
  "keyBackspace tc True (onClick tc (Some 1) code_then_lines) =
     \<lparr>live = [editLine (makeCodeBlock [] (js ''x'')) [], makeLine (js ''b''), makeLine (js ''c'')],
      md = js ''```\<newline>x\<newline>```\<newline>b\<newline>c'',
      undoStack = [js ''```\<newline>x\<newline>```\<newline>\<newline>b\<newline>c''], redoStack = []\<rparr>"
  unfolding after_click_empty
  by (simp add: dom_defs kind_name_not_ed kind_name_not_cb sync_def Let_def
      sync_text_def sync_parts_def commit_node_def pushUndo_def fence3_def js_def)

lemma after_click_b:
  "onClick tc (Some 1) (keyBackspace tc True (onClick tc (Some 1) code_then_lines)) =
     \<lparr>live = [editLine (makeCodeBlock [] (js ''x'')) [], editLine (makeLine (js ''b'')) (js ''b''),
              makeLine (js ''c'')],
      md = js ''```\<newline>x\<newline>```\<newline>b\<newline>c'',
      undoStack = [js ''```\<newline>x\<newline>```\<newline>\<newline>b\<newline>c''], redoStack = []\<rparr>"
  unfolding after_backspace
  by (simp add: dom_defs kind_name_not_ed kind_name_not_cb)

lemma after_click_c:
  "onClick tc (Some 2) (onClick tc (Some 1) (keyBackspace tc True (onClick tc (Some 1) code_then_lines))) =
     \<lparr>live = [editLine (makeCodeBlock [] (js ''x'')) [], editLine (makeLine (js ''b'')) (js ''b''),
              editLine (makeLine (js ''c'')) (js ''c'')],
      md = js ''```\<newline>x\<newline>```\<newline>b\<newline>c'',
      undoStack = [js ''```\<newline>x\<newline>```\<newline>\<newline>b\<newline>c''], redoStack = []\<rparr>"
  unfolding after_click_b
  by (simp add: dom_defs kind_name_not_ed kind_name_not_cb)

text \<open>
  \<open>_focusLine\<close> by itself keeps the number of lines that are being edited at one or
  none, as long as no code block has become such a line: it blurs the line that
  \<open>querySelector\<close> finds, and that is the only one.
\<close>

lemma query_None: "query p ns = None \<Longrightarrow> k < length ns \<Longrightarrow> \<not> p (ns ! k)"
proof (induction ns arbitrary: k)
  case Nil
  then show ?case by simp
next
  case (Cons n ns)
  then show ?case by (cases k) (auto split: if_splits)
qed

lemma query_Some: "query p ns = Some j \<Longrightarrow> j < length ns \<and> p (ns ! j)"
proof (induction ns arbitrary: j)
  case Nil
  then show ?case by simp
next
  case (Cons n ns)
  then show ?case by (cases j) (auto split: if_splits)
qed

lemma rendered_not_editing: "\<not> is_ed_line (renderLine el t)"
  by (simp add: is_ed_line_def has_class_def renderLine_def kind_name_not_ed)

lemma focusLine_single:
  assumes one: "single_editing (live ed)"
    and lines: "\<forall>n \<in> set (live ed). is_ed_line n \<longrightarrow> \<not> ds_cb n"
  shows "single_editing (live (focusLine tc i ed))"
proof (cases "length (live ed) \<le> i \<or> ds_cb (live ed ! i)")
  case True
  then show ?thesis using one by (simp add: focusLine_def)
next
  case False
  let ?ns = "live ed"
  define ed1 where "ed1 = (case query is_ed_line ?ns of
      Some j \<Rightarrow> if j \<noteq> i then blurLine tc (Some j) ed else ed | None \<Rightarrow> ed)"
  have len: "length (live ed1) = length ?ns"
    by (auto simp: ed1_def blurLine_def split: option.splits)
  have rest: "is_ed_line (live ed1 ! a) \<Longrightarrow> a < length ?ns \<Longrightarrow> a = i" for a
  proof (cases "query is_ed_line ?ns")
    case None
    assume a: "is_ed_line (live ed1 ! a)" "a < length ?ns"
    from None have "live ed1 = ?ns" by (simp add: ed1_def)
    with a query_None [OF None] show ?thesis by auto
  next
    case (Some j)
    assume a: "is_ed_line (live ed1 ! a)" "a < length ?ns"
    from query_Some [OF Some] have j: "j < length ?ns" "is_ed_line (?ns ! j)" by auto
    then have ncb: "\<not> ds_cb (?ns ! j)" using lines by (metis nth_mem)
    show ?thesis
    proof (cases "j = i")
      case True
      then have "live ed1 = ?ns" using Some by (simp add: ed1_def)
      with a j one True show ?thesis unfolding single_editing_def by metis
    next
      case ji: False
      then have l: "live ed1 = ?ns[j := renderLine ((?ns ! j)\<lparr>ds_md := textContent tc (shown (?ns ! j))\<rparr>)
          (textContent tc (shown (?ns ! j)))]"
        using Some j ncb by (simp add: ed1_def blurLine_def)
      have "a \<noteq> j" using a j l rendered_not_editing by auto
      then have "is_ed_line (?ns ! a)" using a l by simp
      with a j one have "a = j" unfolding single_editing_def by metis
      with \<open>a \<noteq> j\<close> show ?thesis by simp
    qed
  qed
  have f: "live (focusLine tc i ed) = (live ed1)[i := editLine (live ed1 ! i) (ds_md (live ed1 ! i))]"
    using False by (simp add: focusLine_def ed1_def Let_def)
  show ?thesis
    unfolding single_editing_def f
  proof (intro allI impI)
    fix a b
    assume "a < length ((live ed1)[i := editLine (live ed1 ! i) (ds_md (live ed1 ! i))])"
      and "b < length ((live ed1)[i := editLine (live ed1 ! i) (ds_md (live ed1 ! i))])"
      and e: "is_ed_line ((live ed1)[i := editLine (live ed1 ! i) (ds_md (live ed1 ! i))] ! a)
        \<and> is_ed_line ((live ed1)[i := editLine (live ed1 ! i) (ds_md (live ed1 ! i))] ! b)"
    then have ab: "a < length ?ns" "b < length ?ns" using len by simp_all
    have "a = i" using rest [of a] e ab by (cases "a = i") simp_all
    moreover have "b = i" using rest [of b] e ab by (cases "b = i") simp_all
    ultimately show "a = b" by simp
  qed
qed

text \<open>
  C8. A document of a code block and the lines \<open>''\<close>, \<open>b\<close> and \<open>c\<close>, all
  rendered. After a click on the empty line, Backspace at its start, a click on \<open>b\<close>
  and a click on \<open>c\<close>, both \<open>b\<close> and \<open>c\<close> are being edited: the Backspace
  turned the code block into an element of class \<open>ln is-ed\<close>, which every later
  \<open>_focusLine\<close> finds first and which \<open>_blurLine\<close> refuses to blur.
\<close>

theorem two_lines_editing:
  "editing_lines code_then_lines = [] \<and>
   editing_lines (onClick tc (Some 2) (onClick tc (Some 1)
       (keyBackspace tc True (onClick tc (Some 1) code_then_lines))))
     = [editLine (makeLine (js ''b'')) (js ''b''), editLine (makeLine (js ''c'')) (js ''c'')]"
proof (rule conjI)
  show "editing_lines code_then_lines = []"
    unfolding code_then_lines_state
    by (simp add: editing_lines_def is_ed_line_def has_class_def makeLine_def renderLine_def
        makeCodeBlock_def kind_name_not_ed)
  show "editing_lines (onClick tc (Some 2) (onClick tc (Some 1)
       (keyBackspace tc True (onClick tc (Some 1) code_then_lines))))
     = [editLine (makeLine (js ''b'')) (js ''b''), editLine (makeLine (js ''c'')) (js ''c'')]"
    unfolding after_click_c
    by (simp add: editing_lines_def is_ed_line_def has_class_def editLine_def makeLine_def
        renderLine_def makeCodeBlock_def)
qed

section \<open>The unterminated fence\<close>

text \<open>
  C7. Drawing the string made of the opening fence line with the language token
  \<open>py\<close> and the two lines \<open>line1\<close> and \<open>line2\<close>, with no closing fence, gives exactly
  one element. It is a code block, the language that it holds is \<open>py\<close> and the code
  that it holds is \<open>line1\<close>, a line feed, \<open>line2\<close>.
\<close>

theorem unterminated_fence_example:
  "map block_of (live (draw (ed\<lparr>md := js ''```py\<newline>line1\<newline>line2''\<rparr>)))
     = [CodeBlock (js ''py'') (js ''line1\<newline>line2'')] \<and>
   map ds_cb (live (draw (ed\<lparr>md := js ''```py\<newline>line1\<newline>line2''\<rparr>))) = [True] \<and>
   map ds_lang (live (draw (ed\<lparr>md := js ''```py\<newline>line1\<newline>line2''\<rparr>))) = [js ''py''] \<and>
   map ds_code (live (draw (ed\<lparr>md := js ''```py\<newline>line1\<newline>line2''\<rparr>)))
     = [js ''line1\<newline>line2''] \<and>
   live (draw (ed\<lparr>md := js ''```py\<newline>line1\<newline>line2''\<rparr>))
     = [makeCodeBlock (js ''py'') (js ''line1\<newline>line2'')]"
proof -
  have l: "live (draw (ed\<lparr>md := js ''```py\<newline>line1\<newline>line2''\<rparr>))
      = [makeCodeBlock (js ''py'') (js ''line1\<newline>line2'')]"
    by (simp add: draw_def js_def fence_match_def fence_close_def bare_run_def js_trim_def
        is_space_def is_line_end_def)
  show ?thesis unfolding l by (simp add: block_of_made made_fields)
qed

end
